theory Spec2Isabelle
  imports Main "HOL-Library.Multiset" "HOL-Library.Word"
begin

section \<open>Activity records and comment items\<close>

text \<open>
  Modelled from the spec: the type \<open>TypesPullReqActivity\<close> (services/code) is not part of
  the sources at hand. The fields are the ones \<open>Conversation.tsx\<close> reads: \<open>id\<close>,
  \<open>parent_id\<close> (optional), \<open>kind\<close>, \<open>type\<close>, \<open>edited\<close>, \<open>created\<close>, the author's
  display name and the text. \<open>id\<close>, \<open>type\<close> and \<open>text\<close> carry the prefix \<open>act_\<close>.
\<close>

record TypesPullReqActivity =
  act_id :: int
  parent_id :: "int option"
  kind :: string
  act_type :: string
  edited :: int
  created :: int
  author :: string
  act_text :: string

text \<open>
  Modelled from the spec: \<open>CommentItem\<close> (components/CommentBox) is the normalised view of
  one activity: author display name, timestamps, content, and the originating record
  as \<open>payload\<close>.
\<close>

record CommentItem =
  item_author :: string
  item_created :: int
  updated :: int
  content :: string
  payload :: TypesPullReqActivity

text \<open>
  Modelled from the spec: \<open>activityToCommentItem\<close> (components/DiffViewer/DiffViewerUtils)
  is a pure, total mapping that keeps the author, the timestamps and the whole
  original record.
\<close>

definition activityToCommentItem :: "TypesPullReqActivity \<Rightarrow> CommentItem" where
  "activityToCommentItem activity =
     \<lparr> item_author = author activity,
       item_created = created activity,
       updated = edited activity,
       content = act_text activity,
       payload = activity \<rparr>"

text \<open>
  Modelled from the spec: the constant \<open>CommentType.TITLE_CHANGE\<close> of DiffViewerUtils,
  which the spec calls \<open>title_change\<close>.
\<close>

definition TITLE_CHANGE :: string where
  "TITLE_CHANGE = ''title_change''"

text \<open>
  \<open>orderBy(xs, 'edited', 'desc')\<close> of lodash: a stable sort on \<open>edited\<close>, largest first
  (records with the same \<open>edited\<close> keep their order). It returns a new array.
\<close>

definition orderBy_edited_desc :: "TypesPullReqActivity list \<Rightarrow> TypesPullReqActivity list" where
  "orderBy_edited_desc xs = sort_key (\<lambda>a. - edited a) xs"

text \<open>
  The test \<open>!activity.parent_id\<close>: true when \<open>parent_id\<close> is missing and also when it is
  the number 0, which JavaScript counts as false.
\<close>

definition noParent :: "TypesPullReqActivity \<Rightarrow> bool" where
  "noParent activity = (case parent_id activity of None \<Rightarrow> True | Some p \<Rightarrow> p = 0)"

section \<open>The thread assembler: \<open>activityBlocks\<close>\<close>

datatype error = TypeError

type_synonym block = "CommentItem list"

text \<open>
  \<open>isSystemComment\<close> reads \<open>commentItems[0].payload\<close>: on an empty array
  \<open>commentItems[0]\<close> is undefined and the property access throws.
\<close>

definition isSystemComment :: "block \<Rightarrow> error + bool" where
  "isSystemComment commentItems =
     (case commentItems of
        [] \<Rightarrow> Inl TypeError
      | c # _ \<Rightarrow> Inr (kind (payload c) = ''system''))"

text \<open>
  The predicate of the title-change filter,
  \<open>isSystemComment(_activities) && _activities[0].payload?.type === CommentType.TITLE_CHANGE\<close>.
\<close>

definition isTitleChange :: "block \<Rightarrow> error + bool" where
  "isTitleChange activities =
     (case isSystemComment activities of
        Inl e \<Rightarrow> Inl e
      | Inr s \<Rightarrow>
          (if s then
             (case activities of
                [] \<Rightarrow> Inl TypeError
              | c # _ \<Rightarrow> Inr (act_type (payload c) = TITLE_CHANGE))
           else Inr False))"

text \<open>\<open>Array.prototype.filter\<close> with a predicate that may throw.\<close>

fun filterE :: "('a \<Rightarrow> error + bool) \<Rightarrow> 'a list \<Rightarrow> error + 'a list" where
  "filterE p [] = Inr []"
| "filterE p (x # xs) =
     (case p x of
        Inl e \<Rightarrow> Inl e
      | Inr b \<Rightarrow>
          (case filterE p xs of
             Inl e \<Rightarrow> Inl e
           | Inr ys \<Rightarrow> Inr (if b then x # ys else ys)))"

text \<open>
  The block of the drafts: when \<open>newComments\<close> is not empty, ONE array, the drafts
  ordered by \<open>edited\<close> and mapped, is pushed onto \<open>blocks\<close>.
\<close>

definition draftBlocks :: "TypesPullReqActivity list \<Rightarrow> block list" where
  "draftBlocks newComments =
     (if length newComments \<noteq> 0
      then [map activityToCommentItem (orderBy_edited_desc newComments)]
      else [])"

text \<open>
  \<open>activities\<close> is undefined until the fetch has answered; the source reads it through
  \<open>activities?.filter(...)\<close>. One parent activity with its children: the array starts as
  \<open>[_comment]\<close> and every activity with \<open>parent_id === parentActivity[0].id\<close> is pushed
  onto it, in the order of \<open>activities\<close>.
\<close>

definition withChildren :: "TypesPullReqActivity list option \<Rightarrow> TypesPullReqActivity \<Rightarrow> TypesPullReqActivity list" where
  "withChildren activities comment =
     [comment] @
     (case activities of
        None \<Rightarrow> []
      | Some acts \<Rightarrow> filter (\<lambda>activity. parent_id activity = Some (act_id comment)) acts)"

text \<open>
  The parents, \<open>orderBy(activities?.filter(activity => !activity.parent_id) || [], 'edited', 'desc')\<close>,
  each with its children.
\<close>

definition parentActivities :: "TypesPullReqActivity list option \<Rightarrow> TypesPullReqActivity list list" where
  "parentActivities activities =
     map (withChildren activities)
       (orderBy_edited_desc
          (case activities of None \<Rightarrow> [] | Some acts \<Rightarrow> filter noParent acts))"

text \<open>\<open>blocks\<close> as it stands before the title-change grouping.\<close>

definition blocksBeforeGrouping :: "TypesPullReqActivity list option \<Rightarrow> TypesPullReqActivity list \<Rightarrow> block list" where
  "blocksBeforeGrouping activities newComments =
     draftBlocks newComments @ map (map activityToCommentItem) (parentActivities activities)"

text \<open>
  The grouping of title changes works on array identities: \<open>titleChangeItems\<close> holds
  references to arrays of \<open>blocks\<close>, the first of them is extended in place, and the last
  filter drops from \<open>blocks\<close> the arrays that are still in \<open>titleChangeItems\<close> after the
  \<open>shift\<close>. Every array of \<open>blocks\<close> is a distinct object, so a reference is modelled as
  the index of the array in \<open>blocks\<close>.
\<close>

definition groupTitleChanges :: "block list \<Rightarrow> error + block list" where
  "groupTitleChanges blocks =
     (case filterE (\<lambda>i. isTitleChange (blocks ! i)) [0..<length blocks] of
        Inl e \<Rightarrow> Inl e
      | Inr titleChangeItems \<Rightarrow>
          (let blocks' =
                 (case titleChangeItems of
                    [] \<Rightarrow> blocks
                  | first # others \<Rightarrow>
                      blocks[first := blocks ! first @ concat (map (\<lambda>i. blocks ! i) others)]);
               shifted = tl titleChangeItems
           in Inr (map (\<lambda>i. blocks' ! i) (filter (\<lambda>i. i \<notin> set shifted) [0..<length blocks]))))"

definition activityBlocks :: "TypesPullReqActivity list option \<Rightarrow> TypesPullReqActivity list \<Rightarrow> error + block list" where
  "activityBlocks activities newComments =
     groupTitleChanges (blocksBeforeGrouping activities newComments)"

subsection \<open>Vocabulary of the properties\<close>

text \<open>The fetched records: none while \<open>activities\<close> is undefined.\<close>

definition records :: "TypesPullReqActivity list option \<Rightarrow> TypesPullReqActivity list" where
  "records activities = (case activities of None \<Rightarrow> [] | Some acts \<Rightarrow> acts)"

text \<open>A title-change system record, and a block whose first element is one.\<close>

definition titleChangeRecord :: "TypesPullReqActivity \<Rightarrow> bool" where
  "titleChangeRecord a = (kind a = ''system'' \<and> act_type a = TITLE_CHANGE)"

definition titleChangeBlock :: "block \<Rightarrow> bool" where
  "titleChangeBlock b = (case b of [] \<Rightarrow> False | c # _ \<Rightarrow> titleChangeRecord (payload c))"

text \<open>
  Thread integrity of a block: every element after the first has \<open>parent_id\<close> equal to the
  \<open>id\<close> of the first.
\<close>

definition threadIntegrity :: "block \<Rightarrow> bool" where
  "threadIntegrity b =
     (case b of
        [] \<Rightarrow> True
      | root # replies \<Rightarrow> list_all (\<lambda>c. parent_id (payload c) = Some (act_id (payload root))) replies)"

text \<open>
  The grouping as a function of values, for the proofs: the first title-change block
  takes the elements of the later ones, which are dropped.
\<close>

fun absorb :: "block list \<Rightarrow> block list" where
  "absorb [] = []"
| "absorb (b # bs) =
     (if titleChangeBlock b
      then (b @ concat (filter titleChangeBlock bs)) # filter (\<lambda>c. \<not> titleChangeBlock c) bs
      else b # absorb bs)"

text \<open>The index computation of \<open>groupTitleChanges\<close> when no test throws.\<close>

definition groupByIndex :: "block list \<Rightarrow> block list" where
  "groupByIndex blocks =
     (let titleChangeItems = filter (\<lambda>i. titleChangeBlock (blocks ! i)) [0..<length blocks];
          blocks' =
            (case titleChangeItems of
               [] \<Rightarrow> blocks
             | first # others \<Rightarrow>
                 blocks[first := blocks ! first @ concat (map (\<lambda>i. blocks ! i) others)]);
          shifted = tl titleChangeItems
      in map (\<lambda>i. blocks' ! i) (filter (\<lambda>i. i \<notin> set shifted) [0..<length blocks]))"

text \<open>One parent with its children, mapped: a block of a fetched thread.\<close>

definition thread :: "TypesPullReqActivity list option \<Rightarrow> TypesPullReqActivity \<Rightarrow> block" where
  "thread activities c = map activityToCommentItem (withChildren activities c)"

text \<open>The blocks of the fetched records before the grouping, in the order of the parents.\<close>

definition fetchedThreads :: "TypesPullReqActivity list option \<Rightarrow> block list" where
  "fetchedThreads activities =
     map (thread activities) (orderBy_edited_desc (filter noParent (records activities)))"

text \<open>
  The reading "one block per draft": the output starts with as many blocks as there are
  drafts, each of length 1.
\<close>

definition oneBlockPerDraft :: "TypesPullReqActivity list \<Rightarrow> block list \<Rightarrow> bool" where
  "oneBlockPerDraft newComments out =
     (length newComments \<le> length out \<and>
      list_all (\<lambda>b. length b = 1) (take (length newComments) out))"

subsection \<open>Example records\<close>

text \<open>
  Two title changes edited at 50 and 200, a comment with one reply, a reply to a
  comment that was not fetched, a record whose \<open>parent_id\<close> is 0, and two drafts.
\<close>

definition activity :: "int \<Rightarrow> int option \<Rightarrow> string \<Rightarrow> string \<Rightarrow> int \<Rightarrow> TypesPullReqActivity" where
  "activity i p k t e =
     \<lparr> act_id = i, parent_id = p, kind = k, act_type = t, edited = e, created = e,
       author = ''ada'', act_text = ''text'' \<rparr>"

definition title50 :: TypesPullReqActivity where "title50 = activity 1 None ''system'' TITLE_CHANGE 50"
definition title200 :: TypesPullReqActivity where "title200 = activity 2 None ''system'' TITLE_CHANGE 200"
definition comment100 :: TypesPullReqActivity where "comment100 = activity 3 None ''comment'' ''comment'' 100"
definition reply110 :: TypesPullReqActivity where "reply110 = activity 4 (Some 3) ''comment'' ''comment'' 110"
definition orphan120 :: TypesPullReqActivity where "orphan120 = activity 5 (Some 9) ''comment'' ''comment'' 120"
definition zeroParent :: TypesPullReqActivity where "zeroParent = activity 6 (Some 0) ''comment'' ''comment'' 130"
definition draft300 :: TypesPullReqActivity where "draft300 = activity 7 None ''comment'' ''comment'' 300"
definition draft400 :: TypesPullReqActivity where "draft400 = activity 8 None ''comment'' ''comment'' 400"

text \<open>A reply to the title change edited at 50.\<close>

definition titleReply60 :: TypesPullReqActivity where
  "titleReply60 = activity 10 (Some 1) ''comment'' ''comment'' 60"

lemmas example_defs = activity_def title50_def title200_def comment100_def reply110_def orphan120_def
  zeroParent_def draft300_def draft400_def

subsection \<open>The grouping by index is \<open>absorb\<close>\<close>

lemma isTitleChange_nonempty: "b \<noteq> [] \<Longrightarrow> isTitleChange b = Inr (titleChangeBlock b)"
  by (cases b)
     (auto simp: titleChangeBlock_def titleChangeRecord_def isTitleChange_def isSystemComment_def)

lemma filterE_total: "(\<forall>x\<in>set xs. p x = Inr (q x)) \<Longrightarrow> filterE p xs = Inr (filter q xs)"
  by (induction xs) auto

lemma map_nth_filter_upt:
  "map (\<lambda>i. xs ! i) (filter (\<lambda>i. P (xs ! i)) [0..<length xs]) = filter P xs"
proof (induction xs rule: rev_induct)
  case Nil
  then show ?case by simp
next
  case (snoc x xs)
  have a: "filter (\<lambda>i. P ((xs @ [x]) ! i)) [0..<length xs] = filter (\<lambda>i. P (xs ! i)) [0..<length xs]"
    by (rule filter_cong) (auto simp: nth_append)
  have b: "map (\<lambda>i. (xs @ [x]) ! i) (filter (\<lambda>i. P (xs ! i)) [0..<length xs])
         = map (\<lambda>i. xs ! i) (filter (\<lambda>i. P (xs ! i)) [0..<length xs])"
    by (rule map_cong) (auto simp: nth_append)
  show ?case using snoc by (simp add: a b)
qed

lemma upt_0_Suc: "[0..<Suc n] = 0 # map Suc [0..<n]"
  by (simp add: upt_conv_Cons map_Suc_upt del: upt_Suc)

lemma filter_map_Suc: "filter Q (map Suc xs) = map Suc (filter (\<lambda>i. Q (Suc i)) xs)"
  by (induction xs) auto

lemma Suc_image_mem: "Suc i \<in> Suc ` A \<longleftrightarrow> i \<in> A"
  by auto

lemma groupByIndex_Cons_other:
  assumes "\<not> titleChangeBlock b"
  shows "groupByIndex (b # bs) = b # groupByIndex bs"
proof -
  let ?tc = "filter (\<lambda>i. titleChangeBlock (bs ! i)) [0..<length bs]"
  have tc: "filter (\<lambda>i. titleChangeBlock ((b # bs) ! i)) [0..<length (b # bs)] = map Suc ?tc"
    using assms by (simp add: upt_0_Suc filter_map_Suc del: upt_Suc)
  show ?thesis
  proof (cases ?tc)
    case Nil
    then show ?thesis unfolding groupByIndex_def tc Let_def
      by (simp add: upt_0_Suc filter_map_Suc del: upt_Suc)
  next
    case (Cons i0 rest)
    then show ?thesis unfolding groupByIndex_def tc Let_def
      by (simp add: upt_0_Suc filter_map_Suc o_def Suc_image_mem del: upt_Suc)
  qed
qed

lemma groupByIndex_Cons_title:
  assumes "titleChangeBlock b"
  shows "groupByIndex (b # bs) =
         (b @ concat (filter titleChangeBlock bs)) # filter (\<lambda>c. \<not> titleChangeBlock c) bs"
proof -
  define tc where "tc = filter (\<lambda>i. titleChangeBlock (bs ! i)) [0..<length bs]"
  have tc: "filter (\<lambda>i. titleChangeBlock ((b # bs) ! i)) [0..<length (b # bs)] = 0 # map Suc tc"
    using assms by (simp add: tc_def upt_0_Suc filter_map_Suc del: upt_Suc)
  have m: "map ((!) bs) tc = filter titleChangeBlock bs"
    unfolding tc_def by (rule map_nth_filter_upt)
  have n: "filter (\<lambda>i. i \<notin> set tc) [0..<length bs]
         = filter (\<lambda>i. \<not> titleChangeBlock (bs ! i)) [0..<length bs]"
    unfolding tc_def by (rule filter_cong) auto
  have k: "map ((!) bs) (filter (\<lambda>i. \<not> titleChangeBlock (bs ! i)) [0..<length bs])
         = filter (\<lambda>c. \<not> titleChangeBlock c) bs"
    by (rule map_nth_filter_upt)
  show ?thesis unfolding groupByIndex_def tc Let_def
    by (simp add: upt_0_Suc filter_map_Suc o_def Suc_image_mem m n k del: upt_Suc)
qed

lemma groupByIndex_absorb: "groupByIndex bs = absorb bs"
proof (induction bs)
  case Nil
  show ?case by (simp add: groupByIndex_def)
next
  case (Cons b bs)
  then show ?case
    by (cases "titleChangeBlock b") (simp_all add: groupByIndex_Cons_other groupByIndex_Cons_title)
qed

lemma groupTitleChanges_absorb:
  assumes "\<forall>b\<in>set blocks. b \<noteq> []"
  shows "groupTitleChanges blocks = Inr (absorb blocks)"
proof -
  have "filterE (\<lambda>i. isTitleChange (blocks ! i)) [0..<length blocks]
        = Inr (filter (\<lambda>i. titleChangeBlock (blocks ! i)) [0..<length blocks])"
    by (rule filterE_total) (use assms in \<open>auto simp: isTitleChange_nonempty\<close>)
  then show ?thesis
    by (simp add: groupTitleChanges_def groupByIndex_absorb[symmetric] groupByIndex_def Let_def)
qed

subsection \<open>Facts about \<open>absorb\<close> and the blocks\<close>

lemma titleChangeBlock_append: "titleChangeBlock b \<Longrightarrow> titleChangeBlock (b @ xs)"
  by (cases b) (auto simp: titleChangeBlock_def)

lemma titleChangeBlock_nonempty: "titleChangeBlock b \<Longrightarrow> b \<noteq> []"
  by (auto simp: titleChangeBlock_def)

lemma absorb_no_title: "(\<forall>b\<in>set bs. \<not> titleChangeBlock b) \<Longrightarrow> absorb bs = bs"
  by (induction bs) auto

lemma filter_title_absorb:
  "filter titleChangeBlock (absorb bs) =
     (if \<exists>b\<in>set bs. titleChangeBlock b then [concat (filter titleChangeBlock bs)] else [])"
  by (induction bs) (auto simp: titleChangeBlock_append)

lemma filter_other_absorb:
  "filter (\<lambda>c. \<not> titleChangeBlock c) (absorb bs) = filter (\<lambda>c. \<not> titleChangeBlock c) bs"
  by (induction bs) (auto simp: titleChangeBlock_append)

lemma set_concat_absorb: "set (concat (absorb bs)) = set (concat bs)"
  by (induction bs) auto

lemma hd_absorb_subset: "hd ` set (absorb bs) \<subseteq> hd ` set bs"
proof (induction bs)
  case Nil
  show ?case by simp
next
  case (Cons b bs)
  show ?case
  proof (cases "titleChangeBlock b")
    case True
    then have "hd (b @ concat (filter titleChangeBlock bs)) = hd b"
      by (simp add: titleChangeBlock_nonempty)
    with True show ?thesis by auto
  next
    case False
    with Cons show ?thesis by auto
  qed
qed

lemma sorted_wrt_absorb:
  assumes "sorted_wrt R (map (\<lambda>b. f (hd b)) bs)"
  shows "sorted_wrt R (map (\<lambda>b. f (hd b)) (absorb bs))"
  using assms
proof (induction bs)
  case Nil
  show ?case by simp
next
  case (Cons b bs)
  show ?case
  proof (cases "titleChangeBlock b")
    case True
    then have h: "hd (b @ concat (filter titleChangeBlock bs)) = hd b"
      by (simp add: titleChangeBlock_nonempty)
    have "sorted_wrt R (map (\<lambda>b. f (hd b)) (filter (\<lambda>c. \<not> titleChangeBlock c) bs))"
      using Cons.prems by (simp add: sorted_wrt_map sorted_wrt_filter)
    with True h Cons.prems show ?thesis by (auto simp: sorted_wrt_map)
  next
    case False
    have "hd ` set (absorb bs) \<subseteq> hd ` set bs" by (rule hd_absorb_subset)
    with False Cons show ?thesis by (auto simp: sorted_wrt_map) 
  qed
qed

lemma orderBy_Nil_iff [simp]: "orderBy_edited_desc xs = [] \<longleftrightarrow> xs = []"
proof -
  have "length (orderBy_edited_desc xs) = length xs"
    by (simp add: orderBy_edited_desc_def)
  then show ?thesis by (metis length_0_conv)
qed

lemma draftBlocks_nonempty: "\<forall>b\<in>set (draftBlocks newComments). b \<noteq> []"
  by (auto simp: draftBlocks_def)

lemma parentActivities_records:
  "parentActivities activities =
     map (\<lambda>c. c # filter (\<lambda>a. parent_id a = Some (act_id c)) (records activities))
       (orderBy_edited_desc (filter noParent (records activities)))"
  by (cases activities) (simp_all add: parentActivities_def withChildren_def records_def)

lemma blocks_nonempty: "\<forall>b\<in>set (blocksBeforeGrouping activities newComments). b \<noteq> []"
  using draftBlocks_nonempty by (auto simp: blocksBeforeGrouping_def parentActivities_records)

lemma activityBlocks_absorb:
  "activityBlocks activities newComments = Inr (absorb (blocksBeforeGrouping activities newComments))"
  unfolding activityBlocks_def by (rule groupTitleChanges_absorb) (rule blocks_nonempty)

lemma payload_item [simp]: "payload (activityToCommentItem a) = a"
  by (simp add: activityToCommentItem_def)

lemma item_inj [simp]: "activityToCommentItem a = activityToCommentItem b \<longleftrightarrow> a = b"
  by (metis payload_item)

lemma set_orderBy [simp]: "set (orderBy_edited_desc xs) = set xs"
  by (simp add: orderBy_edited_desc_def)

lemma length_orderBy [simp]: "length (orderBy_edited_desc xs) = length xs"
  by (simp add: orderBy_edited_desc_def)

lemma mset_orderBy [simp]: "mset (orderBy_edited_desc xs) = mset xs"
  by (simp add: orderBy_edited_desc_def)

lemma sorted_orderBy: "sorted_wrt (\<lambda>x y. edited y \<le> edited x) (orderBy_edited_desc xs)"
proof -
  have "sorted (map (\<lambda>a. - edited a) (orderBy_edited_desc xs))"
    by (simp add: orderBy_edited_desc_def)
  then show ?thesis by (simp add: sorted_wrt_map)
qed

lemma thread_records:
  "thread activities c =
     activityToCommentItem c #
     map activityToCommentItem (filter (\<lambda>a. parent_id a = Some (act_id c)) (records activities))"
  by (cases activities) (simp_all add: thread_def withChildren_def records_def)

lemma blocksBeforeGrouping_thread:
  "blocksBeforeGrouping activities newComments =
     draftBlocks newComments @
     map (thread activities) (orderBy_edited_desc (filter noParent (records activities)))"
  by (cases activities)
     (simp_all add: blocksBeforeGrouping_def parentActivities_def thread_def records_def)

lemma titleChangeBlock_thread [simp]: "titleChangeBlock (thread activities c) = titleChangeRecord c"
  by (simp add: thread_records titleChangeBlock_def)

lemma hd_thread [simp]: "hd (thread activities c) = activityToCommentItem c"
  by (simp add: thread_records)

lemma threadIntegrity_thread: "threadIntegrity (thread activities c)"
  by (simp add: thread_records threadIntegrity_def list_all_iff)

lemma thread_in_blocks:
  "a \<in> set (records activities) \<Longrightarrow> noParent a \<Longrightarrow>
   thread activities a \<in> set (blocksBeforeGrouping activities newComments)"
  by (simp add: blocksBeforeGrouping_thread)

lemma fetchedThreads_nonempty: "\<forall>b\<in>set (fetchedThreads activities). b \<noteq> []"
  by (auto simp: fetchedThreads_def thread_records)

lemma fetchedThreads_sorted:
  "sorted_wrt (\<lambda>x y. y \<le> x) (map (\<lambda>b. edited (payload (hd b))) (fetchedThreads activities))"
  using sorted_orderBy[of "filter noParent (records activities)"]
  by (simp add: fetchedThreads_def sorted_wrt_map o_def)

lemma fetchedThreads_roots:
  "hd ` set (fetchedThreads activities)
     = activityToCommentItem ` {r \<in> set (records activities). noParent r}"
  by (auto simp: fetchedThreads_def image_iff)

lemma absorb_nonempty: "\<forall>b\<in>set bs. b \<noteq> [] \<Longrightarrow> \<forall>b\<in>set (absorb bs). b \<noteq> []"
  by (induction bs) auto

lemma fetched_part:
  assumes "hd ` set fs \<subseteq> hd ` set (fetchedThreads activities)"
  shows "\<forall>b\<in>set fs. \<exists>r\<in>set (records activities). noParent r \<and> hd b = activityToCommentItem r"
  using assms unfolding fetchedThreads_roots by auto

lemma assembled_no_drafts:
  "activityBlocks activities [] = Inr (absorb (fetchedThreads activities))"
  by (simp add: activityBlocks_absorb blocksBeforeGrouping_thread draftBlocks_def fetchedThreads_def)

lemma assembled_drafts:
  assumes "newComments \<noteq> []"
  shows "\<exists>d fs. activityBlocks activities newComments = Inr (d # fs)
           \<and> take (length newComments) d = map activityToCommentItem (orderBy_edited_desc newComments)
           \<and> (\<not> titleChangeBlock d \<longrightarrow> d = map activityToCommentItem (orderBy_edited_desc newComments))
           \<and> hd ` set fs \<subseteq> hd ` set (fetchedThreads activities)
           \<and> (\<forall>b\<in>set fs. b \<noteq> [])
           \<and> sorted_wrt (\<lambda>x y. y \<le> x) (map (\<lambda>b. edited (payload (hd b))) fs)"
proof -
  let ?D = "map activityToCommentItem (orderBy_edited_desc newComments)"
  let ?F = "fetchedThreads activities"
  let ?key = "\<lambda>b. edited (payload (hd b))"
  have B: "blocksBeforeGrouping activities newComments = ?D # ?F"
    using assms by (simp add: blocksBeforeGrouping_thread draftBlocks_def fetchedThreads_def)
  show ?thesis
  proof (cases "titleChangeBlock ?D")
    case True
    let ?d = "?D @ concat (filter titleChangeBlock ?F)"
    let ?fs = "filter (\<lambda>c. \<not> titleChangeBlock c) ?F"
    have 1: "activityBlocks activities newComments = Inr (?d # ?fs)"
      using True by (simp add: activityBlocks_absorb B)
    have 2: "titleChangeBlock ?d" using True by (rule titleChangeBlock_append)
    have 3: "sorted_wrt (\<lambda>x y. y \<le> x) (map ?key ?fs)"
      using fetchedThreads_sorted[of activities] by (simp add: sorted_wrt_map sorted_wrt_filter)
    have 4: "\<forall>b\<in>set ?fs. b \<noteq> []" using fetchedThreads_nonempty[of activities] by simp
    have 5: "hd ` set ?fs \<subseteq> hd ` set ?F" by auto
    have 6: "take (length newComments) ?d = ?D" by simp
    from 1 2 3 4 5 6 show ?thesis by blast
  next
    case False
    let ?fs = "absorb ?F"
    have 1: "activityBlocks activities newComments = Inr (?D # ?fs)"
      using False by (simp add: activityBlocks_absorb B)
    have 3: "sorted_wrt (\<lambda>x y. y \<le> x) (map ?key ?fs)"
      using fetchedThreads_sorted by (rule sorted_wrt_absorb)
    have 4: "\<forall>b\<in>set ?fs. b \<noteq> []" using fetchedThreads_nonempty by (rule absorb_nonempty)
    have 5: "hd ` set ?fs \<subseteq> hd ` set ?F" by (rule hd_absorb_subset)
    have 6: "take (length newComments) ?D = ?D" by simp
    from 1 3 4 5 6 show ?thesis by blast
  qed
qed

lemma filter_removeAll_other: "\<not> P r \<Longrightarrow> filter P (removeAll r xs) = filter P xs"
  by (induction xs) auto

lemma set_thread:
  "set (thread activities c) =
     activityToCommentItem ` ({c} \<union> {a \<in> set (records activities). parent_id a = Some (act_id c)})"
  by (auto simp: thread_records)

lemma absorb_single_title: "length (filter titleChangeBlock bs) \<le> 1 \<Longrightarrow> absorb bs = bs"
proof (induction bs)
  case Nil
  show ?case by simp
next
  case (Cons b bs)
  show ?case
  proof (cases "titleChangeBlock b")
    case True
    with Cons.prems have "filter titleChangeBlock bs = []" by simp
    moreover from this have "filter (\<lambda>c. \<not> titleChangeBlock c) bs = bs"
      by (simp add: filter_empty_conv filter_id_conv)
    ultimately show ?thesis using True by simp
  next
    case False
    with Cons show ?thesis by simp
  qed
qed

lemma title_threads_count:
  "length (filter titleChangeBlock (fetchedThreads activities))
     = length (filter (\<lambda>a. noParent a \<and> titleChangeRecord a) (records activities))"
proof -
  have "filter titleChangeBlock (fetchedThreads activities)
        = map (thread activities)
            (filter titleChangeRecord (orderBy_edited_desc (filter noParent (records activities))))"
    by (simp add: fetchedThreads_def filter_map o_def)
  then have "length (filter titleChangeBlock (fetchedThreads activities))
        = length (filter titleChangeRecord (filter noParent (records activities)))"
    by (simp add: orderBy_edited_desc_def filter_sort)
  also have "filter titleChangeRecord (filter noParent (records activities))
        = filter (\<lambda>a. noParent a \<and> titleChangeRecord a) (records activities)"
    by (simp add: conj_commute)
  finally show ?thesis .
qed

lemma fetchedThreads_integrity: "b \<in> set (fetchedThreads activities) \<Longrightarrow> threadIntegrity b"
  by (auto simp: fetchedThreads_def threadIntegrity_thread)

lemma absorb_fetched_integrity:
  assumes "b \<in> set (absorb (fetchedThreads activities))"
  shows "threadIntegrity b \<or>
         (titleChangeBlock b \<and>
          2 \<le> length (filter (\<lambda>a. noParent a \<and> titleChangeRecord a) (records activities)))"
proof (cases "2 \<le> length (filter (\<lambda>a. noParent a \<and> titleChangeRecord a) (records activities))")
  case True
  show ?thesis
  proof (cases "titleChangeBlock b")
    case True
    with \<open>2 \<le> _\<close> show ?thesis by simp
  next
    case False
    with assms have "b \<in> set (filter (\<lambda>c. \<not> titleChangeBlock c) (absorb (fetchedThreads activities)))"
      by simp
    then have "b \<in> set (fetchedThreads activities)" unfolding filter_other_absorb by simp
    then show ?thesis by (simp add: fetchedThreads_integrity)
  qed
next
  case False
  then have "length (filter titleChangeBlock (fetchedThreads activities)) \<le> 1"
    by (simp add: title_threads_count)
  then have "absorb (fetchedThreads activities) = fetchedThreads activities"
    by (rule absorb_single_title)
  with assms show ?thesis by (simp add: fetchedThreads_integrity)
qed

lemmas eval_defs = activityBlocks_absorb blocksBeforeGrouping_def draftBlocks_def parentActivities_records
      records_def orderBy_edited_desc_def noParent_def titleChangeBlock_def titleChangeRecord_def
      example_defs TITLE_CHANGE_def

lemma example_assembled:
  "activityBlocks (Some [title50, comment100, title200, reply110, orphan120]) [draft300, draft400]
   = Inr [[activityToCommentItem draft400, activityToCommentItem draft300],
          [activityToCommentItem title200, activityToCommentItem title50],
          [activityToCommentItem comment100, activityToCommentItem reply110]]"
  by (simp add: eval_defs)

lemma lone_title_assembled:
  "activityBlocks (Some [title50, titleReply60, comment100, reply110]) [draft300, draft400]
   = Inr ([[activityToCommentItem draft400, activityToCommentItem draft300]] @
          [[activityToCommentItem comment100, activityToCommentItem reply110],
           [activityToCommentItem title50, activityToCommentItem titleReply60]])"
  by (simp add: eval_defs titleReply60_def)

subsection \<open>Properties of the assembler\<close>

text \<open>
  C1. When the fetched records hold at least two title-change system records that are
  thread roots, the output has exactly one block whose first element is a title-change
  record; every such record is an element of that block, so none of them heads a block
  of its own besides it.
\<close>

theorem title_changes_grouped:
  assumes "2 \<le> length (filter (\<lambda>a. noParent a \<and> titleChangeRecord a) (records activities))"
  shows "\<exists>out tc. activityBlocks activities newComments = Inr out
           \<and> filter titleChangeBlock out = [tc]
           \<and> (\<forall>a\<in>set (records activities).
                 noParent a \<and> titleChangeRecord a \<longrightarrow> activityToCommentItem a \<in> set tc)"
proof -
  let ?B = "blocksBeforeGrouping activities newComments"
  let ?tc = "concat (filter titleChangeBlock ?B)"
  from assms have "filter (\<lambda>a. noParent a \<and> titleChangeRecord a) (records activities) \<noteq> []"
    by auto
  then obtain a0 where a0: "a0 \<in> set (records activities)" "noParent a0" "titleChangeRecord a0"
    by (auto simp: filter_empty_conv)
  then have "\<exists>b\<in>set ?B. titleChangeBlock b"
    by (intro bexI[of _ "thread activities a0"]) (simp_all add: thread_in_blocks)
  then have one: "filter titleChangeBlock (absorb ?B) = [?tc]"
    by (simp add: filter_title_absorb)
  have all: "activityToCommentItem a \<in> set ?tc"
    if "a \<in> set (records activities)" "noParent a" "titleChangeRecord a" for a
  proof -
    from that have "thread activities a \<in> set (filter titleChangeBlock ?B)"
      by (simp add: thread_in_blocks)
    moreover have "activityToCommentItem a \<in> set (thread activities a)"
      by (simp add: thread_records)
    ultimately show ?thesis by auto
  qed
  show ?thesis using one all by (auto simp: activityBlocks_absorb)
qed

text \<open>
  The property at the example: the title changes edited at 50 and 200 end up in the one
  title-change block.
\<close>

theorem title_changes_grouped_witness:
  "2 \<le> length (filter (\<lambda>a. noParent a \<and> titleChangeRecord a)
                  (records (Some [title50, comment100, title200, reply110, orphan120])))
   \<and> (\<exists>out tc. activityBlocks (Some [title50, comment100, title200, reply110, orphan120])
                   [draft300, draft400] = Inr out
         \<and> filter titleChangeBlock out = [tc]
         \<and> activityToCommentItem title50 \<in> set tc
         \<and> activityToCommentItem title200 \<in> set tc)"
proof -
  have h: "2 \<le> length (filter (\<lambda>a. noParent a \<and> titleChangeRecord a)
                  (records (Some [title50, comment100, title200, reply110, orphan120])))"
    by (simp add: records_def noParent_def titleChangeRecord_def example_defs)
  have r: "noParent title50 \<and> titleChangeRecord title50 \<and> noParent title200 \<and> titleChangeRecord title200"
    by (simp add: noParent_def titleChangeRecord_def example_defs)
  from title_changes_grouped[OF h, of "[draft300, draft400]"] r h show ?thesis
    by (auto simp: records_def)
qed

text \<open>
  C2, as stated, fails: when two title-change blocks are merged, the absorbed record
  is a root and has no \<open>parent_id\<close>, so it does not point to the first element of
  the block. Two title changes suffice.
\<close>

theorem thread_integrity_counterexample:
  "activityBlocks (Some [title50, title200]) []
     = Inr [[activityToCommentItem title200, activityToCommentItem title50]]
   \<and> \<not> threadIntegrity [activityToCommentItem title200, activityToCommentItem title50]"
  by (simp add: eval_defs threadIntegrity_def)

text \<open>
  C2, amended. In every block that the assembler produces from the fetched records
  (the blocks after the block of the drafts), each element after the first has
  \<open>parent_id\<close> equal to the \<open>id\<close> of the first, unless the records hold two or more
  title-change system roots and the block is the title-change block. Without drafts
  and with at most one title-change root this is the claim as stated.
\<close>

theorem thread_integrity_unless_merged:
  "\<exists>ds fs. activityBlocks activities newComments = Inr (ds @ fs)
     \<and> length ds = length (draftBlocks newComments)
     \<and> (\<forall>b\<in>set fs.
           threadIntegrity b \<or>
           (titleChangeBlock b \<and>
            2 \<le> length (filter (\<lambda>a. noParent a \<and> titleChangeRecord a) (records activities))))"
proof (cases "newComments = []")
  case True
  then show ?thesis
    using absorb_fetched_integrity[of _ activities]
    by (intro exI[of _ "[]"] exI[of _ "absorb (fetchedThreads activities)"])
       (simp add: assembled_no_drafts draftBlocks_def)
next
  case False
  let ?D = "map activityToCommentItem (orderBy_edited_desc newComments)"
  let ?F = "fetchedThreads activities"
  have B: "blocksBeforeGrouping activities newComments = ?D # ?F"
    using False by (simp add: blocksBeforeGrouping_thread draftBlocks_def fetchedThreads_def)
  have len: "length (draftBlocks newComments) = 1" using False by (simp add: draftBlocks_def)
  show ?thesis
  proof (cases "titleChangeBlock ?D")
    case True
    let ?d = "?D @ concat (filter titleChangeBlock ?F)"
    let ?fs = "filter (\<lambda>c. \<not> titleChangeBlock c) ?F"
    have "activityBlocks activities newComments = Inr ([?d] @ ?fs)"
      using True by (simp add: activityBlocks_absorb B)
    moreover have "\<forall>b\<in>set ?fs. threadIntegrity b" by (auto intro: fetchedThreads_integrity)
    ultimately show ?thesis using len by (intro exI[of _ "[?d]"] exI[of _ ?fs]) simp
  next
    case no: False
    have "activityBlocks activities newComments = Inr ([?D] @ absorb ?F)"
      using no by (simp add: activityBlocks_absorb B)
    then show ?thesis
      using len absorb_fetched_integrity[of _ activities]
      by (intro exI[of _ "[?D]"] exI[of _ "absorb ?F"]) simp
  qed
qed

text \<open>
  At the example with one title change and a reply to it, the block of the title
  change and the block of the comment both have thread integrity.
\<close>

theorem thread_integrity_unless_merged_witness:
  "length (filter (\<lambda>a. noParent a \<and> titleChangeRecord a)
             (records (Some [title50, titleReply60, comment100, reply110]))) = 1
   \<and> activityBlocks (Some [title50, titleReply60, comment100, reply110]) [draft300, draft400]
       = Inr ([[activityToCommentItem draft400, activityToCommentItem draft300]] @
              [[activityToCommentItem comment100, activityToCommentItem reply110],
               [activityToCommentItem title50, activityToCommentItem titleReply60]])
   \<and> threadIntegrity [activityToCommentItem comment100, activityToCommentItem reply110]
   \<and> threadIntegrity [activityToCommentItem title50, activityToCommentItem titleReply60]"
proof -
  let ?acts = "Some [title50, titleReply60, comment100, reply110]"
  have c: "length (filter (\<lambda>a. noParent a \<and> titleChangeRecord a) (records ?acts)) = 1"
    by (simp add: records_def noParent_def titleChangeRecord_def example_defs titleReply60_def)
  have l: "length (draftBlocks [draft300, draft400]) = 1" by (simp add: draftBlocks_def)
  from thread_integrity_unless_merged[of ?acts "[draft300, draft400]"]
  obtain ds fs where *:
    "activityBlocks ?acts [draft300, draft400] = Inr (ds @ fs)" "length ds = 1"
    "\<forall>b\<in>set fs. threadIntegrity b"
    unfolding c l by auto
  from *(1,2) have "fs = [[activityToCommentItem comment100, activityToCommentItem reply110],
               [activityToCommentItem title50, activityToCommentItem titleReply60]]"
    unfolding lone_title_assembled by (cases ds) auto
  with *(3) c show ?thesis by (simp add: lone_title_assembled)
qed

text \<open>
  C3 asks for one block of length 1 for each draft, ahead of the other blocks. The code
  at two drafts: \<open>blocks.push(orderBy(newComments, 'edited', 'desc').map(activityToCommentItem))\<close>
  pushes one array, so both drafts stand in one block of length 2. The same two
  records as fetched parents get a block each (\<open>.map(_comment => [_comment])\<close>), and
  the renderer takes \<open>blocks[0].payload?.id\<close> as the thread of the whole block.
\<close>

theorem two_drafts_one_block:
  "activityBlocks None [draft300, draft400]
     = Inr [[activityToCommentItem draft400, activityToCommentItem draft300]]
   \<and> \<not> oneBlockPerDraft [draft300, draft400]
          [[activityToCommentItem draft400, activityToCommentItem draft300]]
   \<and> activityBlocks (Some [draft300, draft400]) []
     = Inr [[activityToCommentItem draft400], [activityToCommentItem draft300]]
   \<and> oneBlockPerDraft [draft300, draft400]
          [[activityToCommentItem draft400], [activityToCommentItem draft300]]"
  by (simp add: eval_defs oneBlockPerDraft_def)

text \<open>
  C4. The output is the block of the drafts (if there is a draft) followed by the blocks
  of the fetched records; the drafts stand in it ordered by \<open>edited\<close>, largest first, and
  are the given drafts; every fetched block starts with a fetched parent, and the
  fetched blocks are ordered by the \<open>edited\<close> of their first element, largest first.
\<close>

theorem drafts_then_fetched_ordered:
  "\<exists>ds fs. activityBlocks activities newComments = Inr (ds @ fs)
     \<and> length ds = (if newComments = [] then 0 else 1)
     \<and> (\<forall>d\<in>set ds. take (length newComments) d
                       = map activityToCommentItem (orderBy_edited_desc newComments))
     \<and> sorted_wrt (\<lambda>x y. edited y \<le> edited x) (orderBy_edited_desc newComments)
     \<and> mset (orderBy_edited_desc newComments) = mset newComments
     \<and> (\<forall>b\<in>set fs. b \<noteq> [] \<and>
            (\<exists>r\<in>set (records activities). noParent r \<and> hd b = activityToCommentItem r))
     \<and> sorted_wrt (\<lambda>x y. y \<le> x) (map (\<lambda>b. edited (payload (hd b))) fs)"
proof (cases "newComments = []")
  case True
  let ?fs = "absorb (fetchedThreads activities)"
  have "hd ` set ?fs \<subseteq> hd ` set (fetchedThreads activities)"
    by (rule hd_absorb_subset)
  then have roots: "\<forall>b\<in>set ?fs. \<exists>r\<in>set (records activities). noParent r \<and> hd b = activityToCommentItem r"
    by (rule fetched_part)
  have ne: "\<forall>b\<in>set ?fs. b \<noteq> []"
    using fetchedThreads_nonempty by (rule absorb_nonempty)
  have "sorted_wrt (\<lambda>x y. y \<le> x) (map (\<lambda>b. edited (payload (hd b))) ?fs)"
    using fetchedThreads_sorted by (rule sorted_wrt_absorb)
  with True roots ne show ?thesis
    by (intro exI[of _ "[]"] exI[of _ ?fs]) (simp add: assembled_no_drafts orderBy_edited_desc_def)
next
  case False
  from assembled_drafts[OF False, of activities] obtain d fs where *:
    "activityBlocks activities newComments = Inr (d # fs)"
    "take (length newComments) d = map activityToCommentItem (orderBy_edited_desc newComments)"
    "hd ` set fs \<subseteq> hd ` set (fetchedThreads activities)"
    "\<forall>b\<in>set fs. b \<noteq> []"
    "sorted_wrt (\<lambda>x y. y \<le> x) (map (\<lambda>b. edited (payload (hd b))) fs)"
    by blast
  from *(3) have roots: "\<forall>b\<in>set fs. \<exists>r\<in>set (records activities). noParent r \<and> hd b = activityToCommentItem r"
    by (rule fetched_part)
  show ?thesis using False * roots sorted_orderBy[of newComments]
    by (intro exI[of _ "[d]"] exI[of _ fs]) simp
qed

text \<open>
  At the example: one leading block with the two drafts, then the fetched blocks in
  descending order of their first element's \<open>edited\<close>.
\<close>

theorem drafts_then_fetched_ordered_witness:
  "\<exists>d fs. activityBlocks (Some [title50, comment100, title200, reply110, orphan120]) [draft300, draft400]
            = Inr ([d] @ fs)
     \<and> take (length [draft300, draft400]) d
           = [activityToCommentItem draft400, activityToCommentItem draft300]
     \<and> sorted_wrt (\<lambda>x y. y \<le> x) (map (\<lambda>b. edited (payload (hd b))) fs)"
proof -
  have o: "orderBy_edited_desc [draft300, draft400] = [draft400, draft300]"
    by (simp add: orderBy_edited_desc_def example_defs)
  from drafts_then_fetched_ordered[of "Some [title50, comment100, title200, reply110, orphan120]"
      "[draft300, draft400]"]
  obtain ds fs where *:
    "activityBlocks (Some [title50, comment100, title200, reply110, orphan120]) [draft300, draft400] = Inr (ds @ fs)"
    "length ds = 1"
    "\<forall>d\<in>set ds. take (length [draft300, draft400]) d
        = [activityToCommentItem draft400, activityToCommentItem draft300]"
    "sorted_wrt (\<lambda>x y. y \<le> x) (map (\<lambda>b. edited (payload (hd b))) fs)"
    by (auto simp: o)
  from *(2) obtain d where "ds = [d]" by (cases ds) auto
  with * show ?thesis by auto
qed

text \<open>
  C5, as stated, fails when the \<open>parent_id\<close> that is present is 0: the test
  \<open>!activity.parent_id\<close> takes such a record for a parent, and it is shown as a block of
  its own although no parent has the id 0.
\<close>

theorem unmatched_child_counterexample:
  "parent_id zeroParent = Some 0
   \<and> filter (\<lambda>a. noParent a \<and> act_id a = 0) (records (Some [zeroParent])) = []
   \<and> activityBlocks (Some [zeroParent]) [] = Inr [[activityToCommentItem zeroParent]]"
  by (simp add: eval_defs)

text \<open>
  C5, amended. A record whose \<open>parent_id\<close> is present and not 0, and equal to the \<open>id\<close> of
  no parent among the fetched records, leaves the output as it is without that record,
  and is an element of no block (unless it is also handed in as a draft).
\<close>

theorem unmatched_child_dropped:
  assumes "parent_id r = Some p" and "p \<noteq> 0"
    and "\<forall>a\<in>set (records activities). noParent a \<longrightarrow> act_id a \<noteq> p"
  shows "\<exists>out. activityBlocks activities newComments = Inr out
           \<and> activityBlocks (map_option (removeAll r) activities) newComments = Inr out
           \<and> (r \<notin> set newComments \<longrightarrow> (\<forall>b\<in>set out. activityToCommentItem r \<notin> set b))"
proof -
  let ?B = "blocksBeforeGrouping activities newComments"
  have nr: "\<not> noParent r" using assms(1,2) by (simp add: noParent_def)
  have recs: "records (map_option (removeAll r) activities) = removeAll r (records activities)"
    by (cases activities) (simp_all add: records_def)
  have roots: "filter noParent (removeAll r (records activities)) = filter noParent (records activities)"
    using nr by (rule filter_removeAll_other)
  have same: "thread (map_option (removeAll r) activities) c = thread activities c"
    if "c \<in> set (records activities)" "noParent c" for c
  proof -
    from that assms have "parent_id r \<noteq> Some (act_id c)" by auto
    then have "filter (\<lambda>a. parent_id a = Some (act_id c)) (removeAll r (records activities))
             = filter (\<lambda>a. parent_id a = Some (act_id c)) (records activities)"
      by (rule filter_removeAll_other)
    then show ?thesis by (simp add: thread_records recs)
  qed
  have eq: "blocksBeforeGrouping (map_option (removeAll r) activities) newComments = ?B"
    unfolding blocksBeforeGrouping_thread recs roots
    by (simp add: same)
  have absent: "activityToCommentItem r \<notin> set b" if "r \<notin> set newComments" "b \<in> set (absorb ?B)" for b
  proof
    assume "activityToCommentItem r \<in> set b"
    with that(2) have "activityToCommentItem r \<in> set (concat (absorb ?B))" by auto
    then have "activityToCommentItem r \<in> set (concat ?B)" by (simp only: set_concat_absorb)
    then obtain b' where b': "b' \<in> set ?B" "activityToCommentItem r \<in> set b'" by auto
    from b'(1) consider "b' \<in> set (draftBlocks newComments)"
      | c where "c \<in> set (records activities)" "noParent c" "b' = thread activities c"
      by (auto simp: blocksBeforeGrouping_thread)
    then show False
    proof cases
      case 1
      with b'(2) that(1) show False by (auto simp: draftBlocks_def split: if_splits)
    next
      case 2
      with b'(2) have "r = c \<or> parent_id r = Some (act_id c)" by (auto simp: set_thread)
      with 2 nr assms show False by auto
    qed
  qed
  show ?thesis using absent by (auto simp: activityBlocks_absorb eq)
qed

text \<open>
  At the example the reply with \<open>parent_id\<close> 9 is dropped.
\<close>

theorem unmatched_child_dropped_witness:
  "parent_id orphan120 = Some 9 \<and> (9::int) \<noteq> 0
   \<and> filter (\<lambda>a. noParent a \<and> act_id a = 9)
        (records (Some [title50, comment100, title200, reply110, orphan120])) = []
   \<and> orphan120 \<notin> set [draft300, draft400]
   \<and> (\<exists>out. activityBlocks (Some [title50, comment100, title200, reply110, orphan120])
                [draft300, draft400] = Inr out
         \<and> activityBlocks (Some [title50, comment100, title200, reply110])
                [draft300, draft400] = Inr out
         \<and> list_all (\<lambda>b. activityToCommentItem orphan120 \<notin> set b) out)"
proof -
  have 1: "parent_id orphan120 = Some 9" by (simp add: example_defs)
  have 2: "(9::int) \<noteq> 0" by simp
  have 3: "\<forall>a\<in>set (records (Some [title50, comment100, title200, reply110, orphan120])).
             noParent a \<longrightarrow> act_id a \<noteq> 9"
    by (simp add: records_def noParent_def example_defs)
  have 4: "orphan120 \<notin> set [draft300, draft400]" by (simp add: example_defs)
  have 5: "removeAll orphan120 [title50, comment100, title200, reply110, orphan120]
           = [title50, comment100, title200, reply110]"
    by (simp add: example_defs)
  from unmatched_child_dropped[OF 1 2 3, of "[draft300, draft400]"] 4
  show ?thesis using 1 
    by (simp add: 5 list_all_iff) (simp add: records_def noParent_def example_defs) 
qed

section \<open>The assembler on a store of arrays\<close>

text \<open>
  JavaScript arrays are objects: \<open>push\<close> changes an array in place, and two variables
  can hold the same array. The store keeps the arrays of activities and the arrays of
  comment items; a reference to an array is its index in the store. The records and
  the items themselves are never assigned to, so they are values. The local arrays
  of references (\<open>blocks\<close>, \<open>parentActivities\<close>, \<open>titleChangeItems\<close>) are held by one
  variable each and are lists of references.
\<close>

record heap =
  actArrays :: "TypesPullReqActivity list list"
  itemArrays :: "CommentItem list list"

text \<open>
  A new array (an array literal, or the result of \<open>filter\<close>, \<open>map\<close> or \<open>orderBy\<close>) is
  put at the end of the store; \<open>push\<close> extends the array a reference points to. A
  reference always comes from an allocation, so it points into the store.
\<close>

definition allocAct :: "TypesPullReqActivity list \<Rightarrow> heap \<Rightarrow> nat \<times> heap" where
  "allocAct xs h = (length (actArrays h), h\<lparr>actArrays := actArrays h @ [xs]\<rparr>)"

definition allocItem :: "CommentItem list \<Rightarrow> heap \<Rightarrow> nat \<times> heap" where
  "allocItem xs h = (length (itemArrays h), h\<lparr>itemArrays := itemArrays h @ [xs]\<rparr>)"

definition pushAct :: "nat \<Rightarrow> TypesPullReqActivity list \<Rightarrow> heap \<Rightarrow> heap" where
  "pushAct a xs h = h\<lparr>actArrays := (actArrays h)[a := actArrays h ! a @ xs]\<rparr>"

definition pushItem :: "nat \<Rightarrow> CommentItem list \<Rightarrow> heap \<Rightarrow> heap" where
  "pushItem a xs h = h\<lparr>itemArrays := (itemArrays h)[a := itemArrays h ! a @ xs]\<rparr>"

text \<open>
  \<open>if (newComments.length) blocks.push(orderBy(newComments, 'edited', 'desc').map(activityToCommentItem))\<close>:
  the references pushed onto \<open>blocks\<close>, and the store after it.
\<close>

definition pushDraftBlock :: "nat \<Rightarrow> heap \<Rightarrow> nat list \<times> heap" where
  "pushDraftBlock newCommentsRef h =
     (if length (actArrays h ! newCommentsRef) \<noteq> 0 then
        (case allocAct (orderBy_edited_desc (actArrays h ! newCommentsRef)) h of
           (ordered, h1) \<Rightarrow>
             (case allocItem (map activityToCommentItem (actArrays h1 ! ordered)) h1 of
                (block, h2) \<Rightarrow> ([block], h2)))
      else ([], h))"

text \<open>
  \<open>.map(_comment => [_comment])\<close>: one new array for each parent.
\<close>

fun newParents :: "TypesPullReqActivity list \<Rightarrow> heap \<Rightarrow> nat list \<times> heap" where
  "newParents [] h = ([], h)"
| "newParents (comment # comments) h =
     (case allocAct [comment] h of
        (parentActivity, h1) \<Rightarrow>
          (case newParents comments h1 of
             (rest, h2) \<Rightarrow> (parentActivity # rest, h2)))"

text \<open>
  The body of the first \<open>forEach\<close>. \<open>activities?.filter(...)\<close> is a new array; its test
  reads \<open>parentActivity[0].id\<close> for every activity, which throws on an empty
  \<open>parentActivity\<close>. Each element of the new array is pushed onto \<open>parentActivity\<close>.
\<close>

definition addChildren :: "nat option \<Rightarrow> nat \<Rightarrow> heap \<Rightarrow> error + heap" where
  "addChildren activitiesRef parentActivity h =
     (case activitiesRef of
        None \<Rightarrow> Inr h
      | Some a \<Rightarrow>
          (case filterE
                  (\<lambda>activity.
                     (case actArrays h ! parentActivity of
                        [] \<Rightarrow> Inl TypeError
                      | first # _ \<Rightarrow> Inr (parent_id activity = Some (act_id first))))
                  (actArrays h ! a) of
             Inl e \<Rightarrow> Inl e
           | Inr children \<Rightarrow>
               (case allocAct children h of
                  (childActivities, h1) \<Rightarrow>
                    Inr (fold (\<lambda>childComment. pushAct parentActivity [childComment])
                           (actArrays h1 ! childActivities) h1))))"

text \<open>
  \<open>forEach\<close> with a body that changes the store and may throw.
\<close>

fun forEachE :: "('a \<Rightarrow> heap \<Rightarrow> error + heap) \<Rightarrow> 'a list \<Rightarrow> heap \<Rightarrow> error + heap" where
  "forEachE f [] h = Inr h"
| "forEachE f (x # xs) h = (case f x h of Inl e \<Rightarrow> Inl e | Inr h1 \<Rightarrow> forEachE f xs h1)"

text \<open>
  The second \<open>forEach\<close>: \<open>blocks.push(parentActivity.map(activityToCommentItem))\<close>.
\<close>

fun pushBlocks :: "nat list \<Rightarrow> heap \<Rightarrow> nat list \<times> heap" where
  "pushBlocks [] h = ([], h)"
| "pushBlocks (parentActivity # rest) h =
     (case allocItem (map activityToCommentItem (actArrays h ! parentActivity)) h of
        (block, h1) \<Rightarrow>
          (case pushBlocks rest h1 of
             (blocks, h2) \<Rightarrow> (block # blocks, h2)))"

text \<open>
  The grouping of the title changes: \<open>titleChangeItems[0].push(...value)\<close> for every
  later element, \<open>shift\<close>, and the filter of \<open>blocks\<close> by \<open>includes\<close>, which compares
  references.
\<close>

definition groupTitleChanges_heap :: "nat list \<Rightarrow> heap \<Rightarrow> error + (nat list \<times> heap)" where
  "groupTitleChanges_heap blocks h =
     (case filterE (\<lambda>b. isTitleChange (itemArrays h ! b)) blocks of
        Inl e \<Rightarrow> Inl e
      | Inr titleChangeItems \<Rightarrow>
          (let h' = (case titleChangeItems of
                       [] \<Rightarrow> h
                     | first # others \<Rightarrow>
                         fold (\<lambda>value h. pushItem first (itemArrays h ! value) h) others h);
               shifted = tl titleChangeItems
           in Inr (filter (\<lambda>b. b \<notin> set shifted) blocks, h')))"

text \<open>
  \<open>activityBlocks\<close> on the store: \<open>activitiesRef\<close> and \<open>newCommentsRef\<close> are the
  references held by \<open>activities\<close> (none while it is undefined) and \<open>newComments\<close>; the
  result is the returned array of references to blocks, and the store after the call.
\<close>

definition activityBlocks_heap :: "nat option \<Rightarrow> nat \<Rightarrow> heap \<Rightarrow> error + (nat list \<times> heap)" where
  "activityBlocks_heap activitiesRef newCommentsRef h0 =
     (case pushDraftBlock newCommentsRef h0 of
        (draftBlock, h1) \<Rightarrow>
     (case (case activitiesRef of
              None \<Rightarrow> allocAct [] h1
            | Some a \<Rightarrow> allocAct (filter noParent (actArrays h1 ! a)) h1) of
        (filtered, h2) \<Rightarrow>
     (case allocAct (orderBy_edited_desc (actArrays h2 ! filtered)) h2 of
        (ordered, h3) \<Rightarrow>
     (case newParents (actArrays h3 ! ordered) h3 of
        (parentRefs, h4) \<Rightarrow>
     (case forEachE (addChildren activitiesRef) parentRefs h4 of
        Inl e \<Rightarrow> Inl e
      | Inr h5 \<Rightarrow>
     (case pushBlocks parentRefs h5 of
        (parentBlocks, h6) \<Rightarrow> groupTitleChanges_heap (draftBlock @ parentBlocks) h6))))))"

text \<open>
  The blocks a list of references points to.
\<close>

definition blocksAt :: "heap \<Rightarrow> nat list \<Rightarrow> block list" where
  "blocksAt h refs = map (\<lambda>b. itemArrays h ! b) refs"

text \<open>
  A store holding the example records at 0 and the example drafts at 1.
\<close>

definition heap0 :: heap where
  "heap0 = \<lparr> actArrays = [[title50, comment100, title200, reply110, orphan120], [draft300, draft400]],
             itemArrays = [] \<rparr>"

subsection \<open>The run on the store computes \<open>activityBlocks\<close>\<close>

lemma pushAct_Nil: "pushAct p [] h = h"
  by (simp add: pushAct_def)

lemma pushAct_pushAct: "pushAct p ys (pushAct p xs h) = pushAct p (xs @ ys) h"
  by (cases "p < length (actArrays h)") (simp_all add: pushAct_def list_update_beyond)

lemma fold_pushAct: "fold (\<lambda>c. pushAct p [c]) xs h = pushAct p xs h"
proof (induction xs arbitrary: h)
  case Nil
  show ?case by (simp add: pushAct_Nil)
next
  case (Cons x xs)
  have "fold (\<lambda>c. pushAct p [c]) (x # xs) h = pushAct p xs (pushAct p [x] h)"
    by (simp add: Cons)
  then show ?case by (simp add: pushAct_pushAct)
qed

lemma addChildren_step:
  assumes "p < length (actArrays h)" and "actArrays h ! p = [c]"
    and "\<forall>a. activitiesRef = Some a \<longrightarrow> a < length (actArrays h) \<and> a \<noteq> p"
  shows "\<exists>h'. addChildren activitiesRef p h = Inr h' \<and> itemArrays h' = itemArrays h
           \<and> length (actArrays h) \<le> length (actArrays h')
           \<and> actArrays h' ! p = withChildren (map_option (\<lambda>a. actArrays h ! a) activitiesRef) c
           \<and> (\<forall>q<length (actArrays h). q \<noteq> p \<longrightarrow> actArrays h' ! q = actArrays h ! q)"
proof (cases activitiesRef)
  case None
  with assms show ?thesis by (simp add: addChildren_def withChildren_def)
next
  case (Some a)
  have "filterE (\<lambda>activity.
                   (case actArrays h ! p of
                      [] \<Rightarrow> Inl TypeError
                    | first # _ \<Rightarrow> Inr (parent_id activity = Some (act_id first))))
                (actArrays h ! a)
        = Inr (filter (\<lambda>activity. parent_id activity = Some (act_id c)) (actArrays h ! a))"
    by (rule filterE_total) (simp add: assms(2))
  with Some assms show ?thesis
    by (simp add: addChildren_def withChildren_def allocAct_def fold_pushAct pushAct_def
        nth_append nth_list_update)
qed

lemma forEach_addChildren:
  assumes "distinct ps" and "\<forall>p\<in>set ps. p < length (actArrays h)"
    and "map (\<lambda>p. actArrays h ! p) ps = map (\<lambda>c. [c]) cs"
    and "\<forall>a. activitiesRef = Some a \<longrightarrow> a < length (actArrays h) \<and> a \<notin> set ps"
  shows "\<exists>h'. forEachE (addChildren activitiesRef) ps h = Inr h' \<and> itemArrays h' = itemArrays h
           \<and> length (actArrays h) \<le> length (actArrays h')
           \<and> map (\<lambda>p. actArrays h' ! p) ps
               = map (withChildren (map_option (\<lambda>a. actArrays h ! a) activitiesRef)) cs
           \<and> (\<forall>q<length (actArrays h). q \<notin> set ps \<longrightarrow> actArrays h' ! q = actArrays h ! q)"
  using assms
proof (induction ps arbitrary: h cs)
  case Nil
  then show ?case by simp
next
  case (Cons p ps)
  from Cons.prems(3) obtain c cs' where cs: "cs = c # cs'" by (cases cs) auto
  with Cons.prems have p: "p < length (actArrays h)" "actArrays h ! p = [c]"
    and a: "\<forall>a. activitiesRef = Some a \<longrightarrow> a < length (actArrays h) \<and> a \<noteq> p"
    by auto
  from addChildren_step[OF p a] obtain h1 where h1:
    "addChildren activitiesRef p h = Inr h1" "itemArrays h1 = itemArrays h"
    "length (actArrays h) \<le> length (actArrays h1)"
    "actArrays h1 ! p = withChildren (map_option (\<lambda>a. actArrays h ! a) activitiesRef) c"
    "\<forall>q<length (actArrays h). q \<noteq> p \<longrightarrow> actArrays h1 ! q = actArrays h ! q"
    by blast
  have same: "map_option (\<lambda>a. actArrays h1 ! a) activitiesRef = map_option (\<lambda>a. actArrays h ! a) activitiesRef"
    using a h1(5) by (cases activitiesRef) auto
  have 1: "distinct ps" using Cons.prems(1) by simp
  have 2: "\<forall>q\<in>set ps. q < length (actArrays h1)" using Cons.prems(2) h1(3) by auto
  have 3: "map (\<lambda>q. actArrays h1 ! q) ps = map (\<lambda>c. [c]) cs'"
  proof -
    have "map (\<lambda>q. actArrays h1 ! q) ps = map (\<lambda>q. actArrays h ! q) ps"
      using Cons.prems(1,2) h1(5) by (intro map_cong) auto
    with Cons.prems(3) cs show ?thesis by simp
  qed
  have 4: "\<forall>a. activitiesRef = Some a \<longrightarrow> a < length (actArrays h1) \<and> a \<notin> set ps"
    using Cons.prems(4) h1(3) by auto
  from Cons.IH[OF 1 2 3 4] obtain h' where h':
    "forEachE (addChildren activitiesRef) ps h1 = Inr h'" "itemArrays h' = itemArrays h1"
    "length (actArrays h1) \<le> length (actArrays h')"
    "map (\<lambda>p. actArrays h' ! p) ps
       = map (withChildren (map_option (\<lambda>a. actArrays h1 ! a) activitiesRef)) cs'"
    "\<forall>q<length (actArrays h1). q \<notin> set ps \<longrightarrow> actArrays h' ! q = actArrays h1 ! q"
    by blast
  have pp: "actArrays h' ! p = actArrays h1 ! p"
    using h'(5) p(1) h1(3) Cons.prems(1) by auto
  have rest: "\<forall>q<length (actArrays h). q \<notin> set (p # ps) \<longrightarrow> actArrays h' ! q = actArrays h ! q"
    using h'(5) h1(3,5) by auto
  show ?case
    using h1(1,2,3,4) h'(1,2,3,4) pp rest by (simp add: cs same)
qed

lemma upt_from: "[n ..< n + Suc k] = n # [Suc n ..< Suc n + k]"
  by (simp add: upt_conv_Cons del: upt_Suc)

lemma newParents_eq:
  "newParents cs h =
     ([length (actArrays h) ..< length (actArrays h) + length cs],
      h\<lparr>actArrays := actArrays h @ map (\<lambda>c. [c]) cs\<rparr>)"
proof (induction cs arbitrary: h)
  case Nil
  show ?case by simp
next
  case (Cons c cs)
  have "[length (actArrays h) ..< length (actArrays h) + length (c # cs)]
        = length (actArrays h) # [Suc (length (actArrays h)) ..< Suc (length (actArrays h)) + length cs]"
    using upt_from[of "length (actArrays h)" "length cs"] by simp
  then show ?case by (simp add: Cons allocAct_def del: upt_Suc)
qed

lemma pushBlocks_eq:
  "pushBlocks ps h =
     ([length (itemArrays h) ..< length (itemArrays h) + length ps],
      h\<lparr>itemArrays := itemArrays h @ map (\<lambda>p. map activityToCommentItem (actArrays h ! p)) ps\<rparr>)"
proof (induction ps arbitrary: h)
  case Nil
  show ?case by simp
next
  case (Cons p ps)
  have "[length (itemArrays h) ..< length (itemArrays h) + length (p # ps)]
        = length (itemArrays h) # [Suc (length (itemArrays h)) ..< Suc (length (itemArrays h)) + length ps]"
    using upt_from[of "length (itemArrays h)" "length ps"] by simp
  then show ?case by (simp add: Cons allocItem_def del: upt_Suc)
qed

lemma fold_pushItem:
  assumes "first \<notin> set others" and "first < length (itemArrays h)"
  shows "fold (\<lambda>value h. pushItem first (itemArrays h ! value) h) others h
         = h\<lparr>itemArrays := (itemArrays h)
               [first := itemArrays h ! first @ concat (map (\<lambda>v. itemArrays h ! v) others)]\<rparr>"
  using assms
proof (induction others arbitrary: h)
  case Nil
  then show ?case by simp
next
  case (Cons v others)
  let ?h1 = "pushItem first (itemArrays h ! v) h"
  have 1: "first \<notin> set others" and 2: "first < length (itemArrays ?h1)"
    using Cons.prems by (simp_all add: pushItem_def)
  have same: "map (\<lambda>w. itemArrays ?h1 ! w) others = map (\<lambda>w. itemArrays h ! w) others"
  proof (rule map_cong)
    fix w assume "w \<in> set others"
    with 1 have "w \<noteq> first" by auto
    then show "itemArrays ?h1 ! w = itemArrays h ! w" by (simp add: pushItem_def)
  qed simp
  have "fold (\<lambda>value h. pushItem first (itemArrays h ! value) h) (v # others) h
        = fold (\<lambda>value h. pushItem first (itemArrays h ! value) h) others ?h1"
    by simp
  also have "\<dots> = ?h1\<lparr>itemArrays := (itemArrays ?h1)
               [first := itemArrays ?h1 ! first @ concat (map (\<lambda>w. itemArrays ?h1 ! w) others)]\<rparr>"
    by (rule Cons.IH[OF 1 2])
  also have "\<dots> = h\<lparr>itemArrays := (itemArrays h)
               [first := itemArrays h ! first @ concat (map (\<lambda>w. itemArrays h ! w) (v # others))]\<rparr>"
    unfolding same using Cons.prems(2) by (simp add: pushItem_def)
  finally show ?case .
qed

lemma upt_as_map: "[m ..< m + n] = map (\<lambda>i. i + m) [0..<n]"
  by (simp add: map_add_upt add.commute)

lemma nth_shift: "map (\<lambda>b. (I0 @ B) ! b) (map (\<lambda>i. i + length I0) idxs) = map (\<lambda>i. B ! i) idxs"
  by (simp add: o_def nth_append)

lemma filter_shift: "filter (\<lambda>b. b \<notin> (\<lambda>i. i + (m::nat)) ` set rest) (map (\<lambda>i. i + m) xs)
     = map (\<lambda>i. i + m) (filter (\<lambda>i. i \<notin> set rest) xs)"
  by (induction xs) auto

lemma groupTitleChanges_heap_run:
  assumes I: "itemArrays h = I0 @ B" and ne: "\<forall>b\<in>set B. b \<noteq> []"
  shows "\<exists>refs h'. groupTitleChanges_heap [length I0 ..< length I0 + length B] h = Inr (refs, h')
          \<and> blocksAt h' refs = absorb B
          \<and> actArrays h' = actArrays h
          \<and> take (length I0) (itemArrays h') = I0
          \<and> (\<forall>r\<in>set refs. r < length (itemArrays h'))"
proof -
  let ?m = "length I0" and ?n = "length B"
  let ?shift = "\<lambda>i. i + length I0"
  define tc where "tc = filter (\<lambda>i. titleChangeBlock (B ! i)) [0..<?n]"
  have tc_set: "set tc \<subseteq> {..<?n}" and tc_dist: "distinct tc" by (auto simp: tc_def)
  have "filterE (\<lambda>b. isTitleChange (itemArrays h ! b)) (map ?shift [0..<?n])
        = Inr (filter (\<lambda>b. titleChangeBlock (itemArrays h ! b)) (map ?shift [0..<?n]))"
    by (rule filterE_total) (use ne in \<open>auto simp: I nth_append isTitleChange_nonempty\<close>)
  moreover have "filter (\<lambda>b. titleChangeBlock (itemArrays h ! b)) (map ?shift [0..<?n]) = map ?shift tc"
    by (simp add: tc_def filter_map o_def I nth_append)
  ultimately have F: "filterE (\<lambda>b. isTitleChange (itemArrays h ! b)) [?m ..< ?m + ?n] = Inr (map ?shift tc)"
    by (simp add: upt_as_map)
  show ?thesis
  proof (cases tc)
    case Nil
    then have "\<forall>b\<in>set B. \<not> titleChangeBlock b"
      by (auto simp: tc_def filter_empty_conv in_set_conv_nth)
    then have "absorb B = B" by (rule absorb_no_title)
    moreover have "blocksAt h [?m ..< ?m + ?n] = B"
      unfolding blocksAt_def I upt_as_map nth_shift by (simp add: map_nth)
    ultimately show ?thesis
      using F Nil by (simp add: groupTitleChanges_heap_def I) 
  next
    case (Cons i0 rest)
    with tc_set tc_dist have i0: "i0 < ?n" "i0 \<notin> set rest" by auto
    let ?B' = "B[i0 := B ! i0 @ concat (map (\<lambda>i. B ! i) rest)]"
    let ?h' = "h\<lparr>itemArrays := I0 @ ?B'\<rparr>"
    let ?refs = "map ?shift (filter (\<lambda>i. i \<notin> set rest) [0..<?n])"
    have first: "?shift i0 \<notin> set (map ?shift rest)" "?shift i0 < length (itemArrays h)"
      using i0 by (auto simp: I)
    have "fold (\<lambda>value h. pushItem (?shift i0) (itemArrays h ! value) h) (map ?shift rest) h
          = h\<lparr>itemArrays := (itemArrays h)
               [?shift i0 := itemArrays h ! ?shift i0 @ concat (map (\<lambda>v. itemArrays h ! v) (map ?shift rest))]\<rparr>"
      by (rule fold_pushItem[OF first])
    also have "\<dots> = ?h'"
      unfolding I nth_shift using i0(1) by (simp add: list_update_append nth_append)
    finally have fold: "fold (\<lambda>value h. pushItem (?shift i0) (itemArrays h ! value) h) (map ?shift rest) h = ?h'" .
    have run: "groupTitleChanges_heap [?m ..< ?m + ?n] h = Inr (?refs, ?h')"
      unfolding groupTitleChanges_heap_def F Cons
      by (simp add: fold upt_as_map filter_shift del: upt_Suc)
    have "blocksAt ?h' ?refs = map (\<lambda>i. ?B' ! i) (filter (\<lambda>i. i \<notin> set rest) [0..<?n])"
      by (simp add: blocksAt_def o_def nth_append)
    also have "\<dots> = groupByIndex B"
      unfolding groupByIndex_def tc_def[symmetric] Cons by (simp add: Let_def)
    finally have out: "blocksAt ?h' ?refs = absorb B" by (simp add: groupByIndex_absorb)
    have valid: "\<forall>r\<in>set ?refs. r < length (itemArrays ?h')" by auto
    show ?thesis using run out valid by (intro exI[of _ ?refs] exI[of _ ?h']) simp
  qed
qed

lemma pushDraftBlock_run:
  "\<exists>X. pushDraftBlock nRef h =
     ([length (itemArrays h) ..< length (itemArrays h) + length (draftBlocks (actArrays h ! nRef))],
      h\<lparr>actArrays := actArrays h @ X,
        itemArrays := itemArrays h @ draftBlocks (actArrays h ! nRef)\<rparr>)"
proof (cases "actArrays h ! nRef = []")
  case True
  then show ?thesis
    by (intro exI[of _ "[]"]) (simp add: pushDraftBlock_def draftBlocks_def)
next
  case False
  then show ?thesis
    by (intro exI[of _ "[orderBy_edited_desc (actArrays h ! nRef)]"])
       (simp add: pushDraftBlock_def draftBlocks_def allocAct_def allocItem_def)
qed

lemma nth_upt_append: "map (\<lambda>p. (A @ M) ! p) [length A ..< length A + length M] = M"
  by (simp add: upt_as_map o_def nth_append map_nth)

lemma upt_split: "[i ..< i + a] @ [i + a ..< i + a + b] = [i ..< i + (a + b)]"
  using upt_add_eq_append[of i "i + a" b] by (simp add: add.assoc)

lemma activityBlocks_heap_run:
  assumes n: "nRef < length (actArrays h)"
    and a: "\<forall>a. aRef = Some a \<longrightarrow> a < length (actArrays h)"
  shows "\<exists>refs h'. activityBlocks_heap aRef nRef h = Inr (refs, h')
     \<and> activityBlocks (map_option (\<lambda>a. actArrays h ! a) aRef) (actArrays h ! nRef)
         = Inr (blocksAt h' refs)
     \<and> take (length (actArrays h)) (actArrays h') = actArrays h
     \<and> take (length (itemArrays h)) (itemArrays h') = itemArrays h
     \<and> (\<forall>r\<in>set refs. r < length (itemArrays h'))"
proof -
  let ?A0 = "actArrays h" and ?I0 = "itemArrays h"
  let ?N = "?A0 ! nRef"
  let ?acts = "map_option (\<lambda>a. ?A0 ! a) aRef"
  let ?D = "draftBlocks ?N"
  let ?P = "map (map activityToCommentItem) (parentActivities ?acts)"
  let ?B = "blocksBeforeGrouping ?acts ?N"
  define roots where "roots = (case ?acts of None \<Rightarrow> [] | Some xs \<Rightarrow> filter noParent xs)"
  define cs where "cs = orderBy_edited_desc roots"
  \<comment> \<open>the drafts\<close>
  obtain X where A: "pushDraftBlock nRef h =
     ([length ?I0 ..< length ?I0 + length ?D], h\<lparr>actArrays := ?A0 @ X, itemArrays := ?I0 @ ?D\<rparr>)"
    using pushDraftBlock_run by blast
  define h1 where "h1 = h\<lparr>actArrays := ?A0 @ X, itemArrays := ?I0 @ ?D\<rparr>"
  define A2 where "A2 = ?A0 @ X @ [roots]"
  define A3 where "A3 = A2 @ [cs]"
  \<comment> \<open>the parents\<close>
  have filt: "(case aRef of None \<Rightarrow> allocAct [] h1
               | Some a \<Rightarrow> allocAct (filter noParent (actArrays h1 ! a)) h1)
        = (length (?A0 @ X), h1\<lparr>actArrays := A2\<rparr>)"
    using a by (cases aRef) (simp_all add: allocAct_def nth_append h1_def A2_def roots_def)
  have ord: "allocAct (orderBy_edited_desc (actArrays (h1\<lparr>actArrays := A2\<rparr>) ! length (?A0 @ X)))
               (h1\<lparr>actArrays := A2\<rparr>)
        = (length A2, h1\<lparr>actArrays := A3\<rparr>)"
    by (simp add: allocAct_def nth_append A2_def A3_def cs_def)
  define ps where "ps = [length A3 ..< length A3 + length cs]"
  define h4 where "h4 = h1\<lparr>actArrays := A3 @ map (\<lambda>c. [c]) cs\<rparr>"
  have par: "newParents (actArrays (h1\<lparr>actArrays := A3\<rparr>) ! length A2) (h1\<lparr>actArrays := A3\<rparr>) = (ps, h4)"
    by (simp add: newParents_eq A3_def ps_def h4_def)
  have len03: "length ?A0 \<le> length A3" by (simp add: A3_def A2_def)
  have pre3: "\<And>i. i < length ?A0 \<Longrightarrow> A3 ! i = ?A0 ! i"
    by (simp add: A3_def A2_def nth_append)
  have A4: "actArrays h4 = A3 @ map (\<lambda>c. [c]) cs" and I4: "itemArrays h4 = ?I0 @ ?D"
    by (simp_all add: h4_def h1_def)
  \<comment> \<open>their children\<close>
  have c1: "distinct ps" by (simp add: ps_def)
  have c2: "\<forall>p\<in>set ps. p < length (actArrays h4)" by (simp add: ps_def A4)
  have c3: "map (\<lambda>p. actArrays h4 ! p) ps = map (\<lambda>c. [c]) cs"
    unfolding A4 ps_def using nth_upt_append[of A3 "map (\<lambda>c. [c]) cs"] by simp
  have c4: "\<forall>a. aRef = Some a \<longrightarrow> a < length (actArrays h4) \<and> a \<notin> set ps"
    using a len03 by (auto simp: ps_def A4)
  from forEach_addChildren[OF c1 c2 c3 c4] obtain h5 where h5:
    "forEachE (addChildren aRef) ps h4 = Inr h5" "itemArrays h5 = itemArrays h4"
    "length (actArrays h4) \<le> length (actArrays h5)"
    "map (\<lambda>p. actArrays h5 ! p) ps
       = map (withChildren (map_option (\<lambda>a. actArrays h4 ! a) aRef)) cs"
    "\<forall>q<length (actArrays h4). q \<notin> set ps \<longrightarrow> actArrays h5 ! q = actArrays h4 ! q"
    by blast
  have acts4: "map_option (\<lambda>a. actArrays h4 ! a) aRef = ?acts"
    using a len03 pre3 by (cases aRef) (simp_all add: A4 nth_append)
  have old: "take (length ?A0) (actArrays h5) = ?A0"
  proof (rule nth_equalityI)
    show "length (take (length ?A0) (actArrays h5)) = length ?A0"
      using h5(3) len03 by (simp add: A4)
  next
    fix i assume "i < length (take (length ?A0) (actArrays h5))"
    then have i: "i < length ?A0" by simp
    with len03 have "i < length (actArrays h4)" "i \<notin> set ps" by (simp_all add: A4 ps_def)
    then have "actArrays h5 ! i = actArrays h4 ! i" using h5(5) by simp
    with i len03 pre3 show "take (length ?A0) (actArrays h5) ! i = ?A0 ! i"
      by (simp add: A4 nth_append)
  qed
  \<comment> \<open>the blocks of the parents\<close>
  have pa: "parentActivities ?acts = map (withChildren ?acts) cs"
    by (cases aRef) (simp_all add: parentActivities_def cs_def roots_def)
  have P: "map (\<lambda>p. map activityToCommentItem (actArrays h5 ! p)) ps = ?P"
  proof -
    have "map (\<lambda>p. map activityToCommentItem (actArrays h5 ! p)) ps
          = map (map activityToCommentItem) (map (\<lambda>p. actArrays h5 ! p) ps)"
      by (simp add: o_def)
    also have "\<dots> = ?P"
      unfolding h5(4) acts4 pa ..
    finally show ?thesis .
  qed
  define h6 where "h6 = h5\<lparr>itemArrays := ?I0 @ ?B\<rparr>"
  have lenP: "length ?P = length ps" by (simp add: pa ps_def)
  have blk: "pushBlocks ps h5 = ([length ?I0 + length ?D ..< length ?I0 + length ?D + length ?P], h6)"
    unfolding pushBlocks_eq P h5(2) I4 lenP h6_def by (simp add: blocksBeforeGrouping_def)
  have refs: "[length ?I0 ..< length ?I0 + length ?D] @ [length ?I0 + length ?D ..< length ?I0 + length ?D + length ?P]
        = [length ?I0 ..< length ?I0 + length ?B]"
    unfolding upt_split by (simp add: blocksBeforeGrouping_def)
  \<comment> \<open>the grouping\<close>
  have I6: "itemArrays h6 = ?I0 @ ?B" by (simp add: h6_def)
  from groupTitleChanges_heap_run[OF I6 blocks_nonempty] obtain refs h' where g:
    "groupTitleChanges_heap [length ?I0 ..< length ?I0 + length ?B] h6 = Inr (refs, h')"
    "blocksAt h' refs = absorb ?B" "actArrays h' = actArrays h6"
    "take (length ?I0) (itemArrays h') = ?I0" "\<forall>r\<in>set refs. r < length (itemArrays h')"
    by blast
  have run: "activityBlocks_heap aRef nRef h = Inr (refs, h')"
    unfolding activityBlocks_heap_def A h1_def[symmetric]
    by (simp only: filt ord par h5(1) blk refs g(1) prod.case sum.case)
  have "actArrays h' = actArrays h5" using g(3) by (simp add: h6_def)
  with run g(2,4,5) old show ?thesis by (simp add: activityBlocks_absorb)
qed

lemma take_prefix_nth: "take (length xs) ys = xs \<Longrightarrow> i < length xs \<Longrightarrow> ys ! i = xs ! i"
  by (metis nth_take)

lemma take_prefix_length:
  assumes "take (length xs) ys = xs"
  shows "length xs \<le> length ys"
proof -
  from assms have "length (take (length xs) ys) = length xs" by simp
  then show ?thesis by (simp add: min_def split: if_splits)
qed

lemma heap_example:
  "(case activityBlocks_heap (Some 0) 1 heap0 of
      Inl e \<Rightarrow> None
    | Inr (refs, h) \<Rightarrow> Some (refs, blocksAt h refs, take 2 (actArrays h)))
   = Some ([0, 1, 2],
           [[activityToCommentItem draft400, activityToCommentItem draft300],
            [activityToCommentItem title200, activityToCommentItem title50],
            [activityToCommentItem comment100, activityToCommentItem reply110]],
           actArrays heap0)"
  by code_simp

subsection \<open>Determinism and untouched inputs\<close>

text \<open>
  C9. Two calls of the assembler, one after the other, on the same \<open>activities\<close> and
  \<open>newComments\<close>: both return, the blocks of the second call equal the blocks of the
  first, the blocks returned by the first call are not changed by the second, and
  after each call the input arrays (and every array that existed before) hold what
  they held. By \<open>activityBlocks_heap_run\<close> the blocks are those of \<open>activityBlocks\<close>.
\<close>

theorem assemble_twice_same:
  assumes n: "nRef < length (actArrays h)"
    and a: "\<forall>a. aRef = Some a \<longrightarrow> a < length (actArrays h)"
  shows "\<exists>refs1 h1 refs2 h2.
      activityBlocks_heap aRef nRef h = Inr (refs1, h1)
    \<and> activityBlocks_heap aRef nRef h1 = Inr (refs2, h2)
    \<and> blocksAt h2 refs2 = blocksAt h1 refs1
    \<and> blocksAt h2 refs1 = blocksAt h1 refs1
    \<and> actArrays h1 ! nRef = actArrays h ! nRef
    \<and> actArrays h2 ! nRef = actArrays h ! nRef
    \<and> map_option (\<lambda>a. actArrays h1 ! a) aRef = map_option (\<lambda>a. actArrays h ! a) aRef
    \<and> map_option (\<lambda>a. actArrays h2 ! a) aRef = map_option (\<lambda>a. actArrays h ! a) aRef
    \<and> take (length (actArrays h)) (actArrays h2) = actArrays h
    \<and> take (length (itemArrays h)) (itemArrays h2) = itemArrays h"
proof -
  from activityBlocks_heap_run[OF n a] obtain refs1 h1 where r1:
    "activityBlocks_heap aRef nRef h = Inr (refs1, h1)"
    "activityBlocks (map_option (\<lambda>a. actArrays h ! a) aRef) (actArrays h ! nRef)
       = Inr (blocksAt h1 refs1)"
    "take (length (actArrays h)) (actArrays h1) = actArrays h"
    "take (length (itemArrays h)) (itemArrays h1) = itemArrays h"
    "\<forall>r\<in>set refs1. r < length (itemArrays h1)"
    by blast
  have len1: "length (actArrays h) \<le> length (actArrays h1)"
    using r1(3) by (rule take_prefix_length)
  have n1: "nRef < length (actArrays h1)" using n len1 by simp
  have a1: "\<forall>a. aRef = Some a \<longrightarrow> a < length (actArrays h1)" using a len1 by auto
  have in1: "actArrays h1 ! nRef = actArrays h ! nRef"
    using r1(3) n by (rule take_prefix_nth)
  have ac1: "map_option (\<lambda>a. actArrays h1 ! a) aRef = map_option (\<lambda>a. actArrays h ! a) aRef"
    using a take_prefix_nth[OF r1(3)] by (cases aRef) simp_all
  from activityBlocks_heap_run[OF n1 a1] obtain refs2 h2 where r2:
    "activityBlocks_heap aRef nRef h1 = Inr (refs2, h2)"
    "activityBlocks (map_option (\<lambda>a. actArrays h1 ! a) aRef) (actArrays h1 ! nRef)
       = Inr (blocksAt h2 refs2)"
    "take (length (actArrays h1)) (actArrays h2) = actArrays h1"
    "take (length (itemArrays h1)) (itemArrays h2) = itemArrays h1"
    by blast
  have same: "blocksAt h2 refs2 = blocksAt h1 refs1"
    using r1(2) r2(2) unfolding in1 ac1 by simp
  have kept: "blocksAt h2 refs1 = blocksAt h1 refs1"
    unfolding blocksAt_def using r1(5) take_prefix_nth[OF r2(4)] by (intro map_cong) auto
  have in2: "actArrays h2 ! nRef = actArrays h ! nRef"
    using take_prefix_nth[OF r2(3) n1] in1 by simp
  have ac2: "map_option (\<lambda>a. actArrays h2 ! a) aRef = map_option (\<lambda>a. actArrays h ! a) aRef"
    using a1 take_prefix_nth[OF r2(3)] ac1 by (cases aRef) simp_all
  have A2: "take (length (actArrays h)) (actArrays h2) = actArrays h"
  proof -
    have "take (length (actArrays h)) (take (length (actArrays h1)) (actArrays h2)) = actArrays h"
      unfolding r2(3) by (rule r1(3))
    with len1 show ?thesis by (simp add: min_def)
  qed
  have I2: "take (length (itemArrays h)) (itemArrays h2) = itemArrays h"
  proof -
    have "length (itemArrays h) \<le> length (itemArrays h1)"
      using r1(4) by (rule take_prefix_length)
    moreover have "take (length (itemArrays h)) (take (length (itemArrays h1)) (itemArrays h2)) = itemArrays h"
      unfolding r2(4) by (rule r1(4))
    ultimately show ?thesis by (simp add: min_def)
  qed
  from r1(1) r2(1) same kept in1 in2 ac1 ac2 A2 I2 show ?thesis by blast
qed

text \<open>
  At the example store both calls give the three blocks of \<open>heap_example\<close> and the
  two input arrays are as before.
\<close>

theorem assemble_twice_same_witness:
  "1 < length (actArrays heap0) \<and> 0 < length (actArrays heap0)
   \<and> (\<exists>refs1 h1 refs2 h2.
        activityBlocks_heap (Some 0) 1 heap0 = Inr (refs1, h1)
      \<and> activityBlocks_heap (Some 0) 1 h1 = Inr (refs2, h2)
      \<and> blocksAt h2 refs2 = blocksAt h1 refs1
      \<and> blocksAt h2 refs1 = blocksAt h1 refs1
      \<and> actArrays h2 ! 1 = [draft300, draft400]
      \<and> actArrays h2 ! 0 = [title50, comment100, title200, reply110, orphan120])"
proof -
  have n: "1 < length (actArrays heap0)" by (simp add: heap0_def)
  have a: "\<forall>a. Some (0::nat) = Some a \<longrightarrow> a < length (actArrays heap0)" by (simp add: heap0_def)
  have c: "actArrays heap0 ! 1 = [draft300, draft400]"
    "actArrays heap0 ! 0 = [title50, comment100, title200, reply110, orphan120]"
    by (simp_all add: heap0_def)
  from assemble_twice_same[OF n a] show ?thesis
    using n c by (simp add: heap0_def) blast
qed

section \<open>The comment mutation gateway: \<open>handleAction\<close>\<close>


text \<open>
  Modelled from the spec: \<open>getErrorMessage\<close> (utils/Utils) derives a human-readable
  message from the backend error; an exception is modelled by the message it carries.
\<close>

datatype exception = Exception string

definition getErrorMessage :: "exception \<Rightarrow> string" where
  "getErrorMessage e = (case e of Exception message \<Rightarrow> message)"

text \<open>
  The actions the \<open>switch\<close> of \<open>handleAction\<close> distinguishes, the three requests
  (\<open>saveComment\<close> is the POST with \<open>{text, parent_id}\<close>, \<open>updateComment\<close> the PATCH and
  \<open>deleteComment\<close> the DELETE on \<open>comments/id\<close>), and the backend as the outcome of each
  request: \<open>Inr\<close> when the promise resolves, \<open>Inl\<close> when it rejects. The \<open>id\<close> of the
  target is \<open>commentItem?.payload?.id\<close>, absent when no item is passed.
\<close>

datatype CommentAction = DELETE | REPLY | UPDATE

datatype request =
    SaveComment string "int option"
  | UpdateComment string "int option"
  | DeleteComment "int option"

record backend =
  saveComment :: "string \<Rightarrow> int option \<Rightarrow> exception + TypesPullReqActivity"
  updateComment :: "string \<Rightarrow> int option \<Rightarrow> exception + TypesPullReqActivity"
  deleteComment :: "int option \<Rightarrow> exception + unit"

text \<open>
  What the handlers change: the requests sent to the backend, the error notifications
  shown (\<open>showError(message, timeout, key)\<close>), the buffer \<open>newComments\<close> and the flag
  \<open>commentCreated\<close>. A handler reads the buffer of the render that created it; \<open>world\<close>
  is the state of that render.
\<close>

datatype toast = ShowError string nat "string option"

record world =
  requests :: "request list"
  toasts :: "toast list"
  newComments :: "TypesPullReqActivity list"
  commentCreated :: bool

type_synonym action_result = "bool \<times> CommentItem option"

definition showError :: "string \<Rightarrow> nat \<Rightarrow> string option \<Rightarrow> world \<Rightarrow> world" where
  "showError message timeout key w = w\<lparr>toasts := toasts w @ [ShowError message timeout key]\<rparr>"

definition issue :: "request \<Rightarrow> world \<Rightarrow> world" where
  "issue r w = w\<lparr>requests := requests w @ [r]\<rparr>"

text \<open>
  Modelled from the spec: \<open>confirmAct\<close> (hooks/useConfirmAction) asks the user and runs
  \<open>action\<close> only when the user confirms; \<open>confirmed\<close> is the user's answer. The action
  assigns to the variable \<open>result\<close> of the handler, so it maps the state together with
  the handler's variables.
\<close>

definition confirmAct :: "bool \<Rightarrow> (world \<times> action_result \<Rightarrow> world \<times> action_result)
    \<Rightarrow> world \<times> action_result \<Rightarrow> world \<times> action_result" where
  "confirmAct confirmed action s = (if confirmed then action s else s)"

text \<open>
  \<open>handleAction\<close> of a thread's comment box; \<open>threadId\<close> is \<open>blocks[0].payload?.id\<close>.
\<close>

definition handleAction ::
  "backend \<Rightarrow> bool \<Rightarrow> int \<Rightarrow> CommentAction \<Rightarrow> string \<Rightarrow> CommentItem option
     \<Rightarrow> world \<Rightarrow> world \<times> action_result" where
  "handleAction b confirmed threadId action val commentItem w =
     (let result = True;
          updatedItem = None;
          id = map_option (\<lambda>c. act_id (payload c)) commentItem
      in case action of
           DELETE \<Rightarrow>
             (let result = False
              in confirmAct confirmed
                   (\<lambda>(w, (result, updatedItem)).
                      (case deleteComment b id of
                         Inr _ \<Rightarrow> (issue (DeleteComment id) w, (True, updatedItem))
                       | Inl exception \<Rightarrow>
                           (showError (getErrorMessage exception) 0 (Some ''pr.failedToDeleteComment'')
                              (issue (DeleteComment id) w),
                            (False, updatedItem))))
                   (w, (result, updatedItem)))
         | REPLY \<Rightarrow>
             (case saveComment b val (Some threadId) of
                Inr newComment \<Rightarrow>
                  (issue (SaveComment val (Some threadId)) w,
                   (result, Some (activityToCommentItem newComment)))
              | Inl exception \<Rightarrow>
                  (showError (getErrorMessage exception) 0 (Some ''pr.failedToSaveComment'')
                     (issue (SaveComment val (Some threadId)) w),
                   (False, updatedItem)))
         | UPDATE \<Rightarrow>
             (case updateComment b val id of
                Inr newComment \<Rightarrow>
                  (issue (UpdateComment val id) w,
                   (result, Some (activityToCommentItem newComment)))
              | Inl exception \<Rightarrow>
                  (showError (getErrorMessage exception) 0 (Some ''pr.failedToSaveComment'')
                     (issue (UpdateComment val id) w),
                   (False, updatedItem))))"

text \<open>
  \<open>handleAction\<close> of the box for a new top-level comment: the request carries no
  \<open>parent_id\<close>; on success the new record is appended to \<open>newComments\<close>.
\<close>

definition handleAction_newComment :: "backend \<Rightarrow> string \<Rightarrow> world \<Rightarrow> world \<times> action_result" where
  "handleAction_newComment b val w =
     (let result = True;
          updatedItem = None
      in case saveComment b val None of
           Inr newComment \<Rightarrow>
             ((issue (SaveComment val None) w)
                \<lparr>newComments := newComments w @ [newComment], commentCreated := True\<rparr>,
              (result, Some (activityToCommentItem newComment)))
         | Inl exception \<Rightarrow>
             (showError (getErrorMessage exception) 0 None (issue (SaveComment val None) w),
              (False, updatedItem)))"

subsection \<open>Example backends\<close>

definition lgtmReply :: TypesPullReqActivity where
  "lgtmReply =
     \<lparr> act_id = 9, parent_id = Some 3, kind = ''comment'', act_type = ''comment'', edited = 500,
       created = 500, author = ''ada'', act_text = ''lgtm'' \<rparr>"

definition lgtmComment :: TypesPullReqActivity where
  "lgtmComment = lgtmReply\<lparr>parent_id := None\<rparr>"

definition okBackend :: backend where
  "okBackend =
     \<lparr> saveComment = (\<lambda>txt parent. Inr (lgtmReply\<lparr>parent_id := parent, act_text := txt\<rparr>)),
       updateComment = (\<lambda>txt i. Inr (lgtmReply\<lparr>act_text := txt\<rparr>)),
       deleteComment = (\<lambda>i. Inr ()) \<rparr>"

definition downBackend :: backend where
  "downBackend =
     \<lparr> saveComment = (\<lambda>txt parent. Inl (Exception ''Bad Gateway'')),
       updateComment = (\<lambda>txt i. Inl (Exception ''Bad Gateway'')),
       deleteComment = (\<lambda>i. Inl (Exception ''Bad Gateway'')) \<rparr>"

definition world0 :: world where
  "world0 = \<lparr> requests = [], toasts = [], newComments = [draft300], commentCreated = False \<rparr>"

lemmas gateway_example_defs = lgtmReply_def lgtmComment_def okBackend_def downBackend_def world0_def

subsection \<open>Properties of the gateway\<close>

text \<open>
  C6. A Delete that the user declines leaves everything as it was, so no delete request
  is sent, and the action's result is \<open>(false, absent)\<close>.
\<close>

theorem delete_declined:
  "handleAction b False threadId DELETE val commentItem w = (w, (False, None))"
  by (simp add: handleAction_def confirmAct_def)

text \<open>
  At the example the declined Delete changes nothing, while the confirmed one sends the
  delete request.
\<close>

theorem delete_declined_witness:
  "handleAction okBackend False 3 DELETE [] (Some (activityToCommentItem comment100)) world0
     = (world0, (False, None))
   \<and> requests (fst (handleAction okBackend True 3 DELETE [] (Some (activityToCommentItem comment100)) world0))
     = [DeleteComment (Some 3)]"
  using delete_declined[of okBackend 3 "[]" "Some (activityToCommentItem comment100)" world0]
  by (simp add: handleAction_def confirmAct_def issue_def gateway_example_defs example_defs
      activityToCommentItem_def)

text \<open>
  C7. A Reply sends the create request with the thread as parent. When the request
  succeeds the result is \<open>(true, m)\<close> with \<open>m\<close> the mapped new record and nothing is
  notified; when it fails the result is \<open>(false, absent)\<close> and exactly one error
  notification, carrying the message of the backend error, is added.
\<close>

theorem reply_result:
  "(saveComment b val (Some threadId) = Inr newComment \<longrightarrow>
      snd (handleAction b confirmed threadId REPLY val commentItem w)
        = (True, Some (activityToCommentItem newComment))
      \<and> toasts (fst (handleAction b confirmed threadId REPLY val commentItem w)) = toasts w)
   \<and> (saveComment b val (Some threadId) = Inl exception \<longrightarrow>
      snd (handleAction b confirmed threadId REPLY val commentItem w) = (False, None)
      \<and> toasts (fst (handleAction b confirmed threadId REPLY val commentItem w))
          = toasts w @ [ShowError (getErrorMessage exception) 0 (Some ''pr.failedToSaveComment'')])
   \<and> requests (fst (handleAction b confirmed threadId REPLY val commentItem w))
        = requests w @ [SaveComment val (Some threadId)]"
  by (auto simp: handleAction_def showError_def issue_def split: sum.splits)

text \<open>
  At the example: the reply "lgtm" on a backend that accepts it, and on one that is down.
\<close>

theorem reply_result_witness:
  "saveComment okBackend ''lgtm'' (Some 3) = Inr lgtmReply
   \<and> snd (handleAction okBackend True 3 REPLY ''lgtm'' None world0)
        = (True, Some (activityToCommentItem lgtmReply))
   \<and> toasts (fst (handleAction okBackend True 3 REPLY ''lgtm'' None world0)) = []
   \<and> saveComment downBackend ''lgtm'' (Some 3) = Inl (Exception ''Bad Gateway'')
   \<and> snd (handleAction downBackend True 3 REPLY ''lgtm'' None world0) = (False, None)
   \<and> toasts (fst (handleAction downBackend True 3 REPLY ''lgtm'' None world0))
        = [ShowError ''Bad Gateway'' 0 (Some ''pr.failedToSaveComment'')]"
proof -
  have ok: "saveComment okBackend ''lgtm'' (Some 3) = Inr lgtmReply"
    by (simp add: gateway_example_defs)
  have down: "saveComment downBackend ''lgtm'' (Some 3) = Inl (Exception ''Bad Gateway'')"
    by (simp add: gateway_example_defs)
  have t: "toasts world0 = []" by (simp add: world0_def)
  from reply_result[of okBackend "''lgtm''" 3 lgtmReply True None world0 "Exception ''Bad Gateway''"]
       reply_result[of downBackend "''lgtm''" 3 lgtmReply True None world0 "Exception ''Bad Gateway''"]
  show ?thesis using ok down t by (simp add: getErrorMessage_def)
qed

text \<open>
  C8. A new top-level comment (no thread): on success the buffer is the buffer before
  with the new record at its end and the result is \<open>(true, mapped new record)\<close>; on
  failure the buffer is unchanged and the result is \<open>(false, absent)\<close>.
\<close>

theorem new_comment_appended:
  "(saveComment b val None = Inr newComment \<longrightarrow>
      newComments (fst (handleAction_newComment b val w)) = newComments w @ [newComment]
      \<and> snd (handleAction_newComment b val w) = (True, Some (activityToCommentItem newComment)))
   \<and> (saveComment b val None = Inl exception \<longrightarrow>
      newComments (fst (handleAction_newComment b val w)) = newComments w
      \<and> snd (handleAction_newComment b val w) = (False, None))"
  by (auto simp: handleAction_newComment_def showError_def issue_def split: sum.splits)

text \<open>
  At the example the buffer holding one draft gets the new comment as its second
  element, and keeps its one draft when the backend is down.
\<close>

theorem new_comment_appended_witness:
  "saveComment okBackend ''lgtm'' None = Inr lgtmComment
   \<and> newComments (fst (handleAction_newComment okBackend ''lgtm'' world0)) = [draft300, lgtmComment]
   \<and> snd (handleAction_newComment okBackend ''lgtm'' world0)
        = (True, Some (activityToCommentItem lgtmComment))
   \<and> saveComment downBackend ''lgtm'' None = Inl (Exception ''Bad Gateway'')
   \<and> newComments (fst (handleAction_newComment downBackend ''lgtm'' world0)) = [draft300]
   \<and> snd (handleAction_newComment downBackend ''lgtm'' world0) = (False, None)"
proof -
  have ok: "saveComment okBackend ''lgtm'' None = Inr lgtmComment"
    by (simp add: gateway_example_defs)
  have down: "saveComment downBackend ''lgtm'' None = Inl (Exception ''Bad Gateway'')"
    by (simp add: gateway_example_defs)
  have n: "newComments world0 = [draft300]" by (simp add: world0_def)
  from new_comment_appended[of okBackend "''lgtm''" lgtmComment world0 "Exception ''Bad Gateway''"]
       new_comment_appended[of downBackend "''lgtm''" lgtmComment world0 "Exception ''Bad Gateway''"]
  show ?thesis using ok down n by simp
qed

section \<open>The status check store: \<open>Upsert\<close>\<close>

text \<open>
  Modelled from the spec: \<open>types.Check\<close> and \<open>types.CheckPayload\<close> (package types) with
  the fields \<open>mapInternalCheck\<close> reads; the enums and raw JSON messages are strings.
\<close>

type_synonym int64 = "64 word"

record CheckPayload =
  Version :: string
  Kind :: string
  Data :: string

record types_Check =
  ID :: int64
  CreatedBy :: int64
  Created :: int64
  Updated :: int64
  RepoID :: int64
  CommitSHA :: string
  UID :: string
  Status :: string
  Summary :: string
  Link :: string
  Metadata :: string
  Payload :: CheckPayload

text \<open>
  The row of the table \<open>checks\<close>, as the struct \<open>check\<close> has it.
\<close>

record check =
  check_id :: int64
  check_created_by :: int64
  check_created :: int64
  check_updated :: int64
  check_repo_id :: int64
  check_commit_sha :: string
  check_uid :: string
  check_status :: string
  check_summary :: string
  check_link :: string
  check_payload :: string
  check_metadata :: string
  check_payload_kind :: string
  check_payload_version :: string

definition mapInternalCheck :: "types_Check \<Rightarrow> check" where
  "mapInternalCheck c =
     \<lparr> check_id = ID c,
       check_created_by = CreatedBy c,
       check_created = Created c,
       check_updated = Updated c,
       check_repo_id = RepoID c,
       check_commit_sha = CommitSHA c,
       check_uid = UID c,
       check_status = Status c,
       check_summary = Summary c,
       check_link = Link c,
       check_payload = Data (Payload c),
       check_metadata = Metadata c,
       check_payload_kind = Kind (Payload c),
       check_payload_version = Version (Payload c) \<rparr>"

text \<open>
  The database: the table \<open>checks\<close> with its unique index on
  \<open>(check_repo_id, check_commit_sha, check_uid)\<close>, which the \<open>ON CONFLICT\<close> clause names,
  so the table is a map from that key to the row; the next value of the
  \<open>check_id\<close> sequence; and whether binding or running a statement fails.
\<close>

datatype sql_error = BindFailed | QueryFailed

type_synonym check_key = "int64 \<times> string \<times> string"

record database =
  checks :: "check_key \<rightharpoonup> check"
  next_check_id :: int64
  bind_fails :: bool
  query_fails :: bool

text \<open>
  The statement of \<open>Upsert\<close>: \<open>INSERT ... ON CONFLICT (...) DO UPDATE SET ... RETURNING
  check_id, check_created_by, check_created\<close>. Without a conflict the row is inserted with
  a fresh \<open>check_id\<close> (the column is not in the insert list); on a conflict the eight
  columns of the \<open>SET\<close> list are overwritten in the existing row.
\<close>

definition upsertQuery :: "database \<Rightarrow> check \<Rightarrow> database \<times> (int64 \<times> int64 \<times> int64)" where
  "upsertQuery db arg =
     (let key = (check_repo_id arg, check_commit_sha arg, check_uid arg)
      in case checks db key of
           None \<Rightarrow>
             (let row = arg\<lparr>check_id := next_check_id db\<rparr>
              in (db\<lparr>checks := (checks db)(key \<mapsto> row), next_check_id := next_check_id db + 1\<rparr>,
                  (check_id row, check_created_by row, check_created row)))
         | Some existing \<Rightarrow>
             (let row = existing
                    \<lparr> check_updated := check_updated arg,
                      check_status := check_status arg,
                      check_summary := check_summary arg,
                      check_link := check_link arg,
                      check_payload := check_payload arg,
                      check_metadata := check_metadata arg,
                      check_payload_kind := check_payload_kind arg,
                      check_payload_version := check_payload_version arg \<rparr>
              in (db\<lparr>checks := (checks db)(key \<mapsto> row)\<rparr>,
                  (check_id row, check_created_by row, check_created row))))"

text \<open>
  \<open>Upsert\<close> binds the mapped check, runs the statement and scans the returned row into
  \<open>check.ID\<close>, \<open>check.CreatedBy\<close> and \<open>check.Created\<close>.
\<close>

definition Upsert :: "database \<Rightarrow> types_Check \<Rightarrow> sql_error + (database \<times> types_Check)" where
  "Upsert db c =
     (if bind_fails db then Inl BindFailed
      else if query_fails db then Inl QueryFailed
      else (case upsertQuery db (mapInternalCheck c) of
              (db', (rid, rcreated_by, rcreated)) \<Rightarrow>
                Inr (db', c\<lparr>ID := rid, CreatedBy := rcreated_by, Created := rcreated\<rparr>)))"

subsection \<open>Example rows\<close>

definition buildCheck :: check where
  "buildCheck =
     \<lparr> check_id = 7, check_created_by = 42, check_created = 1000, check_updated = 1000,
       check_repo_id = 1, check_commit_sha = ''abc'', check_uid = ''build'',
       check_status = ''running'', check_summary = ''started'', check_link = ''http://ci/1'',
       check_payload = ''{}'', check_metadata = ''{}'', check_payload_kind = ''raw'',
       check_payload_version = ''1'' \<rparr>"

definition checksDb :: database where
  "checksDb =
     \<lparr> checks = [(1, ''abc'', ''build'') \<mapsto> buildCheck], next_check_id = 8,
       bind_fails = False, query_fails = False \<rparr>"

definition buildReport :: types_Check where
  "buildReport =
     \<lparr> ID = 0, CreatedBy = 99, Created = 2000, Updated = 2000, RepoID = 1, CommitSHA = ''abc'',
       UID = ''build'', Status = ''success'', Summary = ''done'', Link = ''http://ci/2'',
       Metadata = ''meta2'',
       Payload = \<lparr> Version = ''2'', Kind = ''markdown'', Data = ''ok'' \<rparr> \<rparr>"

subsection \<open>Properties of \<open>Upsert\<close>\<close>

text \<open>
  C10. When a row with the natural key (repo id, commit SHA, check UID) of the argument
  exists and the statement runs, only \<open>check_updated\<close>, \<open>check_status\<close>,
  \<open>check_summary\<close>, \<open>check_link\<close>, \<open>check_payload\<close>, \<open>check_metadata\<close>,
  \<open>check_payload_kind\<close> and \<open>check_payload_version\<close> of that row are overwritten
  (\<open>check_created\<close>, \<open>check_created_by\<close> and \<open>check_id\<close> stay), no other row changes, and
  the stored id, created-by and created are written into the argument check.
\<close>

theorem upsert_existing_keeps_creation:
  assumes "checks db (RepoID c, CommitSHA c, UID c) = Some existing"
    and "\<not> bind_fails db" and "\<not> query_fails db"
  shows "Upsert db c =
     Inr (db\<lparr>checks := (checks db)((RepoID c, CommitSHA c, UID c) \<mapsto>
              existing\<lparr> check_updated := Updated c,
                        check_status := Status c,
                        check_summary := Summary c,
                        check_link := Link c,
                        check_payload := Data (Payload c),
                        check_metadata := Metadata c,
                        check_payload_kind := Kind (Payload c),
                        check_payload_version := Version (Payload c) \<rparr>)\<rparr>,
          c\<lparr>ID := check_id existing,
            CreatedBy := check_created_by existing,
            Created := check_created existing\<rparr>)"
  using assms by (simp add: Upsert_def upsertQuery_def mapInternalCheck_def Let_def)

text \<open>
  At the example a report for an existing check of user 42, created at 1000, is
  upserted by user 99 at 2000: the row keeps 42 and 1000, and the check gets them.
\<close>

theorem upsert_existing_keeps_creation_witness:
  "checks checksDb (RepoID buildReport, CommitSHA buildReport, UID buildReport) = Some buildCheck
   \<and> \<not> bind_fails checksDb \<and> \<not> query_fails checksDb
   \<and> Upsert checksDb buildReport =
       Inr (checksDb\<lparr>checks := [(1, ''abc'', ''build'') \<mapsto>
              \<lparr> check_id = 7, check_created_by = 42, check_created = 1000, check_updated = 2000,
                check_repo_id = 1, check_commit_sha = ''abc'', check_uid = ''build'',
                check_status = ''success'', check_summary = ''done'', check_link = ''http://ci/2'',
                check_payload = ''ok'', check_metadata = ''meta2'', check_payload_kind = ''markdown'',
                check_payload_version = ''2'' \<rparr>]\<rparr>,
            buildReport\<lparr>ID := 7, CreatedBy := 42, Created := 1000\<rparr>)"
proof -
  have 1: "checks checksDb (RepoID buildReport, CommitSHA buildReport, UID buildReport) = Some buildCheck"
    by (simp add: checksDb_def buildReport_def)
  have 2: "\<not> bind_fails checksDb" by (simp add: checksDb_def)
  have 3: "\<not> query_fails checksDb" by (simp add: checksDb_def)
  from upsert_existing_keeps_creation[OF 1 2 3] 1 2 3 show ?thesis
    by (simp add: buildCheck_def buildReport_def checksDb_def)
qed

end
